theory Spec2Isabelle
  imports Complex_Main
begin

section \<open>Data model (data\_types.py)\<close>

text \<open>
  A transaction's amount is a JSON number: \<^verbatim>\<open>json.loads\<close> reads an integer
  literal as a Python \<^verbatim>\<open>int\<close> (unbounded) and any other number, with
  \<^verbatim>\<open>Infinity\<close> and \<^verbatim>\<open>NaN\<close>, as a \<^verbatim>\<open>float\<close>. The number is stored as it
  came, and \<^verbatim>\<open>add_transaction\<close> compares \<^verbatim>\<open>float(amount)\<close> with zero. The three
  special values of the float type are kept apart from the finite ones, because the
  comparison \<^verbatim>\<open>amt <= 0\<close> treats them differently: it is false for \<^verbatim>\<open>nan\<close> and
  for \<^verbatim>\<open>inf\<close>, true for \<^verbatim>\<open>-inf\<close>.
\<close>

datatype pyfloat = Finite real | PosInf | NegInf | NaN

fun le_zero :: "pyfloat \<Rightarrow> bool" where
  "le_zero (Finite r) = (r \<le> 0)"
| "le_zero PosInf = False"
| "le_zero NegInf = True"
| "le_zero NaN = False"

datatype py_number = PyFloat pyfloat | PyInt int

text \<open>
  The value under the key \<^verbatim>\<open>amount\<close> of a decoded message: a number, or
  something \<^verbatim>\<open>float\<close> raises on (\<^verbatim>\<open>null\<close>, a list, an object, text that is
  not a number). Text that \<^verbatim>\<open>float\<close> can read and the booleans, which are not
  amounts of type \<^verbatim>\<open>float\<close>, are left out.
\<close>

datatype amount_value = Number py_number | Unconvertible

text \<open>
  \<^verbatim>\<open>float(x)\<close>, with \<open>None\<close> for an exception. On a float it is the identity. On
  an \<^verbatim>\<open>int\<close> it raises OverflowError when the magnitude reaches
  \<open>2^1024 - 2^970\<close>, and otherwise gives the nearest double; the model keeps the
  integer itself, which has the same sign and is zero exactly when the double is, and
  the sign is all that \<^verbatim>\<open>amt <= 0\<close> reads.
\<close>

definition float_overflow_bound :: int where
  "float_overflow_bound = 2 ^ 1024 - 2 ^ 970"

fun py_float :: "amount_value \<Rightarrow> pyfloat option" where
  "py_float (Number (PyFloat f)) = Some f"
| "py_float (Number (PyInt n)) =
     (if \<bar>n\<bar> < float_overflow_bound then Some (Finite (of_int n)) else None)"
| "py_float Unconvertible = None"


text \<open>
  \<^verbatim>\<open>class TransactionType(TypedDict)\<close> and \<^verbatim>\<open>class BlockType(TypedDict)\<close>:
  every key is present, with a value of its declared type. Python's \<^verbatim>\<open>int\<close> is
  unbounded, and \<^verbatim>\<open>==\<close> on two such dictionaries compares them key by key, which
  is equality of records.
\<close>

record transaction =
  tx_id :: string
  sender :: string
  receiver :: string
  amount :: py_number
  type :: string

record block =
  index :: int
  timestamp :: string
  nonce :: int
  previous_hash :: string
  transactions :: "transaction list"

text \<open>
  A transaction as it reaches the node is a decoded JSON object, and any of its keys
  may be missing: \<^verbatim>\<open>cast(TransactionType, payload["tx"])\<close> checks nothing.
  \<open>tx_dict\<close> is such an object, each field being \<^verbatim>\<open>tx.get(key)\<close>: \<open>None\<close> for a
  missing key, on which \<^verbatim>\<open>tx[key]\<close> raises KeyError. \<open>typed_tx\<close> reads it as a
  TransactionType when every key is present, and \<open>dict_of_tx\<close> is the way back.
  \<open>falsy\<close> is Python's \<^verbatim>\<open>not tx.get(key)\<close>. Only \<^verbatim>\<open>add_transaction\<close> and
  the listener guard against missing keys, so only they take a \<open>tx_dict\<close>; the
  entries of the mempool and the transactions and fields of a block are read by
  subscript throughout, and are TransactionType and BlockType values.
\<close>

record tx_dict =
  get_tx_id :: "string option"
  get_sender :: "string option"
  get_receiver :: "string option"
  get_amount :: "amount_value option"
  get_type :: "string option"

definition typed_tx :: "tx_dict \<Rightarrow> transaction option" where
  "typed_tx d =
     (case (get_tx_id d, get_sender d, get_receiver d, get_amount d, get_type d) of
        (Some i, Some f, Some r, Some (Number a), Some t) \<Rightarrow>
          Some \<lparr>tx_id = i, sender = f, receiver = r, amount = a, type = t\<rparr>
      | _ \<Rightarrow> None)"

definition dict_of_tx :: "transaction \<Rightarrow> tx_dict" where
  "dict_of_tx t =
     \<lparr>get_tx_id = Some (tx_id t), get_sender = Some (sender t),
      get_receiver = Some (receiver t), get_amount = Some (Number (amount t)),
      get_type = Some (type t)\<rparr>"

fun falsy :: "string option \<Rightarrow> bool" where
  "falsy None = True"
| "falsy (Some v) = (v = [])"

text \<open>
  A Python \<^verbatim>\<open>dict\<close> keeps its keys in insertion order, and
  \<^verbatim>\<open>list(self.mempool.values())\<close> reads that order into a mined block, so a
  dictionary is an association list here. Assigning to a key that is present
  overwrites in place; assigning to a new key appends.
\<close>

type_synonym ('k, 'v) dict = "('k \<times> 'v) list"

definition dict_get :: "('k, 'v) dict \<Rightarrow> 'k \<Rightarrow> 'v option" where
  "dict_get d k = map_of d k"

definition dict_contains :: "('k, 'v) dict \<Rightarrow> 'k \<Rightarrow> bool" where
  "dict_contains d k = (k \<in> set (map fst d))"

fun dict_set :: "('k, 'v) dict \<Rightarrow> 'k \<Rightarrow> 'v \<Rightarrow> ('k, 'v) dict" where
  "dict_set [] k v = [(k, v)]"
| "dict_set ((k', v') # d) k v =
     (if k' = k then (k, v) # d else (k', v') # dict_set d k v)"

definition dict_pop :: "('k, 'v) dict \<Rightarrow> 'k \<Rightarrow> ('k, 'v) dict" where
  "dict_pop d k = filter (\<lambda>kv. fst kv \<noteq> k) d"

definition dict_values :: "('k, 'v) dict \<Rightarrow> 'v list" where
  "dict_values d = map snd d"

section \<open>The ledger (blockchain\_core.py)\<close>

text \<open>
  \<^verbatim>\<open>_hash_dict\<close> is SHA-256 (hashlib) of the sorted-key JSON text (json) of a
  block, as a hexadecimal string. Both come from Python's standard library, not from
  this repository, so the digest is a parameter of every operation that hashes: the
  results below hold for each function from blocks to strings.
\<close>

type_synonym hasher = "block \<Rightarrow> string"

definition startswith :: "string \<Rightarrow> string \<Rightarrow> bool" where
  "startswith s p = (take (length p) s = p)"

definition BLOCK_REWARD :: py_number where
  "BLOCK_REWARD = PyFloat (Finite 50)"

definition GENESIS :: block where
  "GENESIS = \<lparr>index = 1, timestamp = ''2025-01-01T00:00:00Z'', nonce = 1,
     previous_hash = ''0'', transactions = []\<rparr>"

record Blockchain =
  chain :: "block list"
  mempool :: "(string, transaction) dict"

datatype error = IndexError

text \<open>\<^verbatim>\<open>__init__\<close>\<close>

definition Blockchain_init :: Blockchain where
  "Blockchain_init = \<lparr>chain = [GENESIS], mempool = []\<rparr>"

definition hash_block :: "hasher \<Rightarrow> block \<Rightarrow> string" where
  "hash_block hash_dict b = hash_dict b"

text \<open>
  \<^verbatim>\<open>_build_block\<close> stamps the block with \<^verbatim>\<open>datetime.datetime.now().isoformat()\<close>;
  the clock's reading is the argument \<open>now\<close>.
\<close>

definition build_block ::
  "Blockchain \<Rightarrow> string \<Rightarrow> int \<Rightarrow> string \<Rightarrow> transaction list \<Rightarrow> block" where
  "build_block s now n prev txs =
     \<lparr>index = int (length (chain s)) + 1, timestamp = now, nonce = n,
      previous_hash = prev, transactions = txs\<rparr>"

text \<open>\<^verbatim>\<open>self.chain[-1]\<close> raises IndexError on an empty list.\<close>

definition get_latest_block :: "Blockchain \<Rightarrow> error + block" where
  "get_latest_block s = (if chain s = [] then Inl IndexError else Inr (last (chain s)))"

text \<open>Decimal text of a natural number, for the f-string \<^verbatim>\<open>f"coinbase-{len(self.chain)+1}"\<close>.\<close>

fun string_of_nat :: "nat \<Rightarrow> string" where
  "string_of_nat n =
     (if n < 10 then [''0123456789'' ! n]
      else string_of_nat (n div 10) @ [''0123456789'' ! (n mod 10)])"

declare string_of_nat.simps [simp del]

definition coinbase_tx :: "nat \<Rightarrow> string \<Rightarrow> transaction" where
  "coinbase_tx height miner_address =
     \<lparr>tx_id = ''coinbase-'' @ string_of_nat height, sender = ''COINBASE'',
      receiver = miner_address, amount = BLOCK_REWARD, type = ''coinbase''\<rparr>"

text \<open>
  \<^verbatim>\<open>_remove_confirmed_from_mempool\<close>: the loop over the confirmed transactions,
  popping the id of each regular one.
\<close>

fun remove_confirmed_from_mempool ::
  "transaction list \<Rightarrow> (string, transaction) dict \<Rightarrow> (string, transaction) dict" where
  "remove_confirmed_from_mempool [] mp = mp"
| "remove_confirmed_from_mempool (t # ts) mp =
     remove_confirmed_from_mempool ts
       (if type t = ''regular'' then dict_pop mp (tx_id t) else mp)"

text \<open>
  The nonce search of \<^verbatim>\<open>mine_block\<close>:
  \<^verbatim>\<open>while not self.hash_block(block).startswith("0000"): block["nonce"] += 1\<close>.
  Nothing bounds the loop, so the model is a partial function: \<open>None\<close> is the
  search that never ends.
\<close>

partial_function (option) mine_loop :: "hasher \<Rightarrow> block \<Rightarrow> block option" where
  "mine_loop hash_dict b =
     (if startswith (hash_block hash_dict b) ''0000'' then Some b
      else mine_loop hash_dict (b\<lparr>nonce := nonce b + 1\<rparr>))"

definition mine_block ::
  "hasher \<Rightarrow> string \<Rightarrow> string \<Rightarrow> Blockchain \<Rightarrow> (error + block \<times> Blockchain) option" where
  "mine_block hash_dict now miner_address s =
     (case get_latest_block s of
        Inl e \<Rightarrow> Some (Inl e)
      | Inr tip \<Rightarrow>
          (let prev_hash = hash_block hash_dict tip;
               txs = coinbase_tx (length (chain s) + 1) miner_address
                       # dict_values (mempool s);
               candidate = build_block s now 1 prev_hash txs
           in case mine_loop hash_dict candidate of
                None \<Rightarrow> None
              | Some blk \<Rightarrow>
                  Some (Inr (blk,
                    s\<lparr>chain := chain s @ [blk],
                      mempool := remove_confirmed_from_mempool (transactions blk) (mempool s)\<rparr>))))"

text \<open>
  \<^verbatim>\<open>is_chain_valid\<close>. The loop over \<^verbatim>\<open>range(1, len(chain))\<close> walks the
  consecutive pairs. The argument is optional, and \<^verbatim>\<open>chain = chain or self.chain\<close>
  replaces every falsy argument, the empty list as well as \<^verbatim>\<open>None\<close>, by the
  node's own chain.
\<close>

fun is_chain_valid_loop :: "hasher \<Rightarrow> block list \<Rightarrow> bool" where
  "is_chain_valid_loop hash_dict (b_prev # b_curr # bs) =
     (if \<not> startswith (hash_dict b_curr) ''0000'' \<or> previous_hash b_curr \<noteq> hash_dict b_prev
      then False
      else is_chain_valid_loop hash_dict (b_curr # bs))"
| "is_chain_valid_loop hash_dict [b] = True"
| "is_chain_valid_loop hash_dict [] = True"

definition is_chain_valid :: "hasher \<Rightarrow> Blockchain \<Rightarrow> block list option \<Rightarrow> bool" where
  "is_chain_valid hash_dict s arg =
     (let c = (case arg of None \<Rightarrow> chain s
                         | Some c' \<Rightarrow> if c' = [] then chain s else c')
      in if c = [] \<or> hd c \<noteq> GENESIS then False
         else is_chain_valid_loop hash_dict c)"

definition validate_and_add_block ::
  "hasher \<Rightarrow> Blockchain \<Rightarrow> block \<Rightarrow> error + bool \<times> Blockchain" where
  "validate_and_add_block hash_dict s b =
     (case get_latest_block s of
        Inl e \<Rightarrow> Inl e
      | Inr tip \<Rightarrow>
          if \<not> startswith (hash_block hash_dict b) ''0000''
             \<or> previous_hash b \<noteq> hash_block hash_dict tip
          then Inr (False, s)
          else Inr (True,
            s\<lparr>chain := chain s @ [b],
              mempool := remove_confirmed_from_mempool (transactions b) (mempool s)\<rparr>))"

text \<open>
  \<^verbatim>\<open>replace_chain\<close>. \<open>confirmed_ids\<close> is the set comprehension over the adopted
  chain, kept as the list of its elements.
\<close>

definition confirmed_ids :: "block list \<Rightarrow> string list" where
  "confirmed_ids c =
     concat (map (\<lambda>blk. map tx_id (filter (\<lambda>tx. type tx = ''regular'') (transactions blk))) c)"

definition replace_chain :: "hasher \<Rightarrow> Blockchain \<Rightarrow> block list \<Rightarrow> bool \<times> Blockchain" where
  "replace_chain hash_dict s new_chain =
     (if \<not> is_chain_valid hash_dict s (Some new_chain)
         \<or> length new_chain \<le> length (chain s)
      then (False, s)
      else (True,
        s\<lparr>chain := new_chain,
          mempool := filter (\<lambda>kv. fst kv \<notin> set (confirmed_ids new_chain)) (mempool s)\<rparr>))"

text \<open>
  The \<^verbatim>\<open>try\<close> block of \<^verbatim>\<open>add_transaction\<close>, \<^verbatim>\<open>amt = float(tx["amount"])\<close>:
  \<open>None\<close> when it raises, which is the KeyError of a missing amount or an exception
  of \<^verbatim>\<open>float\<close>.
\<close>

definition float_amount :: "tx_dict \<Rightarrow> pyfloat option" where
  "float_amount tx = (case get_amount tx of None \<Rightarrow> None | Some v \<Rightarrow> py_float v)"

text \<open>
  \<^verbatim>\<open>add_transaction\<close>. When the \<^verbatim>\<open>try\<close> block raises, the \<^verbatim>\<open>except\<close> branch
  returns \<^verbatim>\<open>(False, tx)\<close>. The checks follow in the source's order. Past them
  every key is present and the amount is a number (\<open>passes_checks_typed\<close> below), so
  the \<open>None\<close> case of \<open>typed_tx\<close> is never taken. The result is the pair
  \<^verbatim>\<open>(added, tx)\<close> and the ledger.
\<close>

definition add_transaction ::
  "Blockchain \<Rightarrow> tx_dict \<Rightarrow> (bool \<times> tx_dict) \<times> Blockchain" where
  "add_transaction s tx =
     (case float_amount tx of
        None \<Rightarrow> ((False, tx), s)
      | Some amt \<Rightarrow>
          if le_zero amt then ((False, tx), s)
          else if falsy (get_sender tx) \<or> falsy (get_receiver tx) \<or> falsy (get_tx_id tx)
          then ((False, tx), s)
          else if get_type tx \<noteq> Some ''regular'' \<and> get_type tx \<noteq> Some ''coinbase''
          then ((False, tx), s)
          else (case typed_tx tx of
                  None \<Rightarrow> ((False, tx), s)
                | Some t \<Rightarrow>
                    (case dict_get (mempool s) (tx_id t) of
                       Some stored \<Rightarrow> ((False, dict_of_tx stored), s)
                     | None \<Rightarrow>
                         if type t = ''coinbase'' then ((False, tx), s)
                         else ((True, tx),
                           s\<lparr>mempool := dict_set (mempool s) (tx_id t) t\<rparr>))))"

section \<open>The node's listener (node.py)\<close>

type_synonym peer = "string \<times> int"

text \<open>
  The decoded JSON payloads of \<^verbatim>\<open>listen\<close>. A transaction message may lack its
  \<^verbatim>\<open>ttl\<close>: \<^verbatim>\<open>int(payload.get("ttl", 4))\<close>.
\<close>

datatype payload =
  New_transaction tx_dict "int option"
| New_block block
| REQ_CHAIN
| FULL_CHAIN "block list"

record Node =
  blockchain :: Blockchain
  port :: int
  address :: string
  peers :: "peer list"
  seen_tx_ids :: "string set"

text \<open>
  Sending is the only output: each operation returns the datagrams it sends, in
  order, beside the new state. \<^verbatim>\<open>_broadcast\<close> skips the peer given as
  \<^verbatim>\<open>except_peer\<close>.
\<close>

definition send :: "payload \<Rightarrow> peer \<Rightarrow> (payload \<times> peer) list" where
  "send msg p = [(msg, p)]"

definition broadcast :: "Node \<Rightarrow> payload \<Rightarrow> peer option \<Rightarrow> (payload \<times> peer) list" where
  "broadcast n msg except_peer =
     map (\<lambda>p. (msg, p)) (filter (\<lambda>p. \<not> (except_peer \<noteq> None \<and> Some p = except_peer)) (peers n))"

definition request_full_chain_from :: "peer \<Rightarrow> (payload \<times> peer) list" where
  "request_full_chain_from p = send REQ_CHAIN p"

text \<open>\<^verbatim>\<open>int(payload.get("ttl", 4))\<close>\<close>

definition ttl_of :: "int option \<Rightarrow> int" where
  "ttl_of ttl_field = (case ttl_field of None \<Rightarrow> 4 | Some t \<Rightarrow> t)"

text \<open>
  One turn of the \<^verbatim>\<open>listen\<close> loop on a decoded JSON payload from \<open>addr\<close>:
  the four branches on \<^verbatim>\<open>payload["type"]\<close>. An exception inside the
  \<^verbatim>\<open>try\<close> (the KeyError of \<^verbatim>\<open>tx["tx_id"]\<close> on a transaction without id, the
  IndexError of a ledger without tip) is caught and printed: the node goes on with
  the state it had.
  The peer-list branch, which comes before the JSON decoding and touches neither the
  ledger nor the seen set, is left out, and a datagram handed to the socket counts
  as sent.
\<close>

definition listen :: "hasher \<Rightarrow> Node \<Rightarrow> payload \<Rightarrow> peer \<Rightarrow> Node \<times> (payload \<times> peer) list" where
  "listen hash_dict n msg addr =
     (case msg of
        New_transaction tx ttl_field \<Rightarrow>
          (case get_tx_id tx of
             None \<Rightarrow> (n, [])
           | Some tx_id' \<Rightarrow>
               (let ttl = ttl_of ttl_field in
                if tx_id' = [] \<or> tx_id' \<in> seen_tx_ids n then (n, [])
                else
                  (let n1 = n\<lparr>seen_tx_ids := insert tx_id' (seen_tx_ids n)\<rparr>;
                       n2 = n1\<lparr>blockchain := snd (add_transaction (blockchain n1) tx)\<rparr>
                   in if ttl > 0
                      then (n2, broadcast n2 (New_transaction tx (Some (ttl - 1))) (Some addr))
                      else (n2, []))))
      | New_block b \<Rightarrow>
          (case validate_and_add_block hash_dict (blockchain n) b of
             Inl e \<Rightarrow> (n, [])
           | Inr (ok, s') \<Rightarrow>
               if ok then (n\<lparr>blockchain := s'\<rparr>, [])
               else (n\<lparr>blockchain := s'\<rparr>, request_full_chain_from addr))
      | REQ_CHAIN \<Rightarrow> (n, send (FULL_CHAIN (chain (blockchain n))) addr)
      | FULL_CHAIN remote \<Rightarrow>
          (n\<lparr>blockchain := snd (replace_chain hash_dict (blockchain n) remote)\<rparr>, []))"

section \<open>Vocabulary of the properties\<close>

text \<open>The proof-of-work predicate: the digest begins with four hexadecimal zeros.\<close>

definition proof_of_work :: "hasher \<Rightarrow> block \<Rightarrow> bool" where
  "proof_of_work hash_dict b = startswith (hash_dict b) ''0000''"

text \<open>
  The specification's wording of chain validation, to be compared with
  \<open>is_chain_valid\<close>: the chain is non-empty, its first element is the Genesis block,
  and every consecutive pair is linked by hash and carries proof of work.
\<close>

definition validateChain_spec :: "hasher \<Rightarrow> block list \<Rightarrow> bool" where
  "validateChain_spec hash_dict c =
     (c \<noteq> [] \<and> hd c = GENESIS \<and>
      (\<forall>i \<in> set [0..<length c - 1].
         previous_hash (c ! Suc i) = hash_dict (c ! i) \<and> proof_of_work hash_dict (c ! Suc i)))"

text \<open>The ids a block list confirms: those of its regular transactions.\<close>

definition regular_ids :: "transaction list \<Rightarrow> string list" where
  "regular_ids txs = map tx_id (filter (\<lambda>t. type t = ''regular'') txs)"

text \<open>
  Representation invariants of the mempool: every entry is stored under its own id
  (\<^verbatim>\<open>self.mempool[tx_id] = tx\<close> with \<^verbatim>\<open>tx_id = tx["tx_id"]\<close>), keys are not
  repeated, and no entry is a coinbase transaction.
\<close>

definition mempool_keyed :: "(string, transaction) dict \<Rightarrow> bool" where
  "mempool_keyed mp = list_all (\<lambda>kv. fst kv = tx_id (snd kv)) mp"

definition mempool_regular :: "(string, transaction) dict \<Rightarrow> bool" where
  "mempool_regular mp = list_all (\<lambda>kv. type (snd kv) = ''regular'') mp"

text \<open>Each block's index field is its 1-based position in the chain.\<close>

definition indices_sequential :: "block list \<Rightarrow> bool" where
  "indices_sequential c = (map index c = map (\<lambda>i. int i + 1) [0..<length c])"

text \<open>
  The ledger states a node can hold: those that the operations produce from a fresh
  ledger. A mining step is one whose nonce search ended.
\<close>

inductive reachable :: "hasher \<Rightarrow> Blockchain \<Rightarrow> bool" for hash_dict :: hasher where
  fresh: "reachable hash_dict Blockchain_init"
| submitted: "reachable hash_dict s \<Longrightarrow> reachable hash_dict (snd (add_transaction s tx))"
| mined: "reachable hash_dict s \<Longrightarrow> mine_block hash_dict now miner_address s = Some (Inr (blk, s'))
    \<Longrightarrow> reachable hash_dict s'"
| appended: "reachable hash_dict s \<Longrightarrow> validate_and_add_block hash_dict s b = Inr (ok, s')
    \<Longrightarrow> reachable hash_dict s'"
| replaced: "reachable hash_dict s \<Longrightarrow> reachable hash_dict (snd (replace_chain hash_dict s c))"

text \<open>
  The same, with the blocks that arrive from peers restricted to those whose index
  is the position they are given.
\<close>

inductive reachable_indexed :: "hasher \<Rightarrow> Blockchain \<Rightarrow> bool" for hash_dict :: hasher where
  fresh_ix: "reachable_indexed hash_dict Blockchain_init"
| submitted_ix: "reachable_indexed hash_dict s
    \<Longrightarrow> reachable_indexed hash_dict (snd (add_transaction s tx))"
| mined_ix: "reachable_indexed hash_dict s
    \<Longrightarrow> mine_block hash_dict now miner_address s = Some (Inr (blk, s'))
    \<Longrightarrow> reachable_indexed hash_dict s'"
| appended_ix: "reachable_indexed hash_dict s \<Longrightarrow> index b = int (length (chain s)) + 1
    \<Longrightarrow> validate_and_add_block hash_dict s b = Inr (ok, s')
    \<Longrightarrow> reachable_indexed hash_dict s'"
| replaced_ix: "reachable_indexed hash_dict s \<Longrightarrow> indices_sequential c
    \<Longrightarrow> reachable_indexed hash_dict (snd (replace_chain hash_dict s c))"

text \<open>
  Mining several times in a row, each call with its clock reading and miner address.
  It stops at the first call that raises, and has no result if a nonce search never
  ends.
\<close>

fun mine_times ::
  "hasher \<Rightarrow> (string \<times> string) list \<Rightarrow> Blockchain \<Rightarrow> (error + Blockchain) option" where
  "mine_times hash_dict [] s = Some (Inr s)"
| "mine_times hash_dict ((now, miner_address) # calls) s =
     (case mine_block hash_dict now miner_address s of
        None \<Rightarrow> None
      | Some (Inl e) \<Rightarrow> Some (Inl e)
      | Some (Inr (blk, s')) \<Rightarrow> mine_times hash_dict calls s')"

text \<open>
  A nonce search from block \<open>b\<close> ends exactly when some nonce at or above \<open>b\<close>'s
  gives proof of work. Whether SHA-256 always offers one is not known; a digest with
  the property below does.
\<close>

definition nonce_findable :: "hasher \<Rightarrow> bool" where
  "nonce_findable hash_dict =
     (\<forall>b. \<exists>k. proof_of_work hash_dict (b\<lparr>nonce := nonce b + int k\<rparr>))"

text \<open>
  A small stand-in digest for the concrete evaluations: it depends on the nonce and
  the timestamp, and a third of the nonces give proof of work.
\<close>

definition demo_hash :: hasher where
  "demo_hash b = (if nonce b mod 3 = 0 then ''0000'' else ''ffff'') @ timestamp b"

text \<open>
  The checks of \<open>add_transaction\<close> that come before the lookup of the id in the
  mempool; \<open>amount_accepted\<close> is the first two of them on a number: \<^verbatim>\<open>float\<close>
  converts it and the result does not compare \<^verbatim>\<open><= 0\<close>.
\<close>

definition amount_accepted :: "py_number \<Rightarrow> bool" where
  "amount_accepted a =
     (case py_float (Number a) of None \<Rightarrow> False | Some amt \<Rightarrow> \<not> le_zero amt)"

definition passes_checks :: "tx_dict \<Rightarrow> bool" where
  "passes_checks tx =
     ((case float_amount tx of None \<Rightarrow> False | Some amt \<Rightarrow> \<not> le_zero amt)
      \<and> \<not> falsy (get_sender tx) \<and> \<not> falsy (get_receiver tx) \<and> \<not> falsy (get_tx_id tx)
      \<and> (get_type tx = Some ''regular'' \<or> get_type tx = Some ''coinbase''))"

text \<open>Sample values for the concrete evaluations.\<close>

definition demo_block :: block where
  "demo_block = \<lparr>index = 2, timestamp = ''2025-06-01T12:00:00'', nonce = 3,
     previous_hash = demo_hash GENESIS, transactions = []\<rparr>"

definition demo_tx :: transaction where
  "demo_tx = \<lparr>tx_id = ''t1'', sender = ''a'', receiver = ''b'', amount = PyInt 10,
     type = ''regular''\<rparr>"

definition infinite_tx :: transaction where
  "infinite_tx = \<lparr>tx_id = ''t2'', sender = ''a'', receiver = ''b'', amount = PyFloat PosInf,
     type = ''regular''\<rparr>"


definition demo_ledger :: Blockchain where
  "demo_ledger = \<lparr>chain = [GENESIS], mempool = [(''t1'', demo_tx)]\<rparr>"

definition misnumbered_block :: block where
  "misnumbered_block = \<lparr>index = 7, timestamp = ''2025-06-01T12:00:00'', nonce = 81484,
     previous_hash = ''f6d0b75a25a26d358fa2ef7d23f0e7dcdc76744740f3a539ba3eb6a7e4889f0d'',
     transactions = []\<rparr>"

definition alice_block :: block where
  "alice_block = \<lparr>index = 2, timestamp = ''2025-06-01T12:00:00'', nonce = 21357,
     previous_hash = ''f6d0b75a25a26d358fa2ef7d23f0e7dcdc76744740f3a539ba3eb6a7e4889f0d'',
     transactions = [coinbase_tx 2 ''alice'']\<rparr>"

text \<open>
  The values of \<^verbatim>\<open>_hash_dict\<close> on three blocks, as hashlib and json compute them:
  the SHA-256 digest of the Genesis block, that of \<open>misnumbered_block\<close> and that of
  \<open>alice_block\<close>, the block that \<^verbatim>\<open>mine_block("alice")\<close> builds on a fresh ledger
  at the clock reading above. The nonces were found by the search of
  \<^verbatim>\<open>mine_block\<close>. Other blocks are not tabulated.
\<close>

definition sha256_known :: hasher where
  "sha256_known b =
     (if b = GENESIS
      then ''f6d0b75a25a26d358fa2ef7d23f0e7dcdc76744740f3a539ba3eb6a7e4889f0d''
      else if b = misnumbered_block
      then ''0000c31a73755a6d4d1f0370b1ce5274a709629924f28b4b9131d1c72069016c''
      else if b = alice_block
      then ''000042c201d1dac96b8ba56a749d1d5e89de7aa90fff3f4fb34727039033937b''
      else [])"

text \<open>
  A ledger whose one pending transaction is a regular one that was submitted under
  the id \<^verbatim>\<open>coinbase-2\<close>.
\<close>

definition squatter_tx :: transaction where
  "squatter_tx = \<lparr>tx_id = ''coinbase-2'', sender = ''a'', receiver = ''b'', amount = PyInt 10,
     type = ''regular''\<rparr>"

definition squatter_ledger :: Blockchain where
  "squatter_ledger = \<lparr>chain = [GENESIS], mempool = [(''coinbase-2'', squatter_tx)]\<rparr>"

definition confirming_block :: block where
  "confirming_block = \<lparr>index = 2, timestamp = ''2025-06-01T12:00:00'', nonce = 3,
     previous_hash = demo_hash GENESIS, transactions = [demo_tx]\<rparr>"

definition two_pending :: Blockchain where
  "two_pending = \<lparr>chain = [GENESIS], mempool = [(''t1'', demo_tx), (''t2'', infinite_tx)]\<rparr>"

definition mined_block :: block where
  "mined_block = \<lparr>index = 2, timestamp = ''2025-06-01T12:00:00'', nonce = 3,
     previous_hash = demo_hash GENESIS,
     transactions = [coinbase_tx 2 ''alice'', demo_tx]\<rparr>"

definition misnumbered_ledger :: Blockchain where
  "misnumbered_ledger = \<lparr>chain = [GENESIS, misnumbered_block], mempool = []\<rparr>"

definition mined_ledger :: Blockchain where
  "mined_ledger = \<lparr>chain = [GENESIS, mined_block], mempool = []\<rparr>"

definition unnamed_tx :: tx_dict where
  "unnamed_tx = \<lparr>get_tx_id = Some [], get_sender = Some ''a'', get_receiver = Some ''b'',
     get_amount = Some (Number (PyInt 10)), get_type = Some ''regular''\<rparr>"




definition demo_node :: Node where
  "demo_node = \<lparr>blockchain = Blockchain_init, port = 4000, address = ''n0'',
     peers = [(''127.0.0.1'', 4001), (''127.0.0.1'', 4002)], seen_tx_ids = {}\<rparr>"

section \<open>Auxiliary facts\<close>

lemma remove_confirmed_filter:
  "remove_confirmed_from_mempool txs mp = filter (\<lambda>kv. fst kv \<notin> set (regular_ids txs)) mp"
proof (induction txs arbitrary: mp)
  case Nil
  show ?case by (simp add: regular_ids_def)
next
  case (Cons t ts)
  show ?case
    by (simp add: Cons.IH regular_ids_def dict_pop_def conj_commute)
qed

lemma set_confirmed_ids:
  "set (confirmed_ids c) = (\<Union>b \<in> set c. set (regular_ids (transactions b)))"
  by (simp add: confirmed_ids_def regular_ids_def)

lemma is_chain_valid_loop_snoc:
  "is_chain_valid_loop H (c @ [b]) =
     (is_chain_valid_loop H c \<and> (c \<noteq> [] \<longrightarrow> proof_of_work H b \<and> previous_hash b = H (last c)))"
proof (induction H c rule: is_chain_valid_loop.induct)
  case (1 H p q bs)
  then show ?case by (auto simp: proof_of_work_def)
next
  case (2 H x)
  show ?case by (auto simp: proof_of_work_def)
next
  case (3 H)
  show ?case by simp
qed

lemma is_chain_valid_loop_nth:
  "is_chain_valid_loop H c =
     (\<forall>i. Suc i < length c \<longrightarrow> previous_hash (c ! Suc i) = H (c ! i) \<and> proof_of_work H (c ! Suc i))"
proof (induction H c rule: is_chain_valid_loop.induct)
  case (1 H p q bs)
  show ?case (is "?L = ?R")
  proof
    assume L: ?L
    then have a: "proof_of_work H q" "previous_hash q = H p" "is_chain_valid_loop H (q # bs)"
      by (auto simp: proof_of_work_def split: if_splits)
    show ?R
    proof (intro allI impI)
      fix i assume "Suc i < length (p # q # bs)"
      then show "previous_hash ((p # q # bs) ! Suc i) = H ((p # q # bs) ! i) \<and>
            proof_of_work H ((p # q # bs) ! Suc i)"
        using a 1 by (cases i) (auto simp: proof_of_work_def)
    qed
  next
    assume R: ?R
    from R[rule_format, of 0] have a: "proof_of_work H q" "previous_hash q = H p" by auto
    have "\<forall>i. Suc i < length (q # bs) \<longrightarrow> previous_hash ((q # bs) ! Suc i) = H ((q # bs) ! i) \<and>
        proof_of_work H ((q # bs) ! Suc i)"
    proof (intro allI impI)
      fix i assume "Suc i < length (q # bs)"
      then show "previous_hash ((q # bs) ! Suc i) = H ((q # bs) ! i) \<and>
        proof_of_work H ((q # bs) ! Suc i)"
        using R[rule_format, of "Suc i"] by simp
    qed
    then show ?L using a 1 by (auto simp: proof_of_work_def)
  qed
next
  case (2 H x)
  show ?case by simp
next
  case (3 H)
  show ?case by simp
qed

lemma is_chain_valid_nonempty:
  "c \<noteq> [] \<Longrightarrow> is_chain_valid H s (Some c) = validateChain_spec H c"
  by (auto simp: is_chain_valid_def validateChain_spec_def is_chain_valid_loop_nth)

lemma mine_loop_found:
  "proof_of_work H (b\<lparr>nonce := nonce b + int k\<rparr>)
   \<Longrightarrow> \<exists>j\<le>k. mine_loop H b = Some (b\<lparr>nonce := nonce b + int j\<rparr>)"
proof (induction k arbitrary: b)
  case 0
  then show ?case
    by (subst mine_loop.simps) (simp add: proof_of_work_def hash_block_def)
next
  case (Suc k)
  show ?case
  proof (cases "proof_of_work H b")
    case True
    then have "mine_loop H b = Some (b\<lparr>nonce := nonce b + int 0\<rparr>)"
      by (subst mine_loop.simps) (simp add: proof_of_work_def hash_block_def)
    then show ?thesis by blast
  next
    case False
    let ?b = "b\<lparr>nonce := nonce b + 1\<rparr>"
    from Suc.prems have "proof_of_work H (?b\<lparr>nonce := nonce ?b + int k\<rparr>)"
      by (simp add: ac_simps)
    from Suc.IH[OF this] obtain j where j: "j \<le> k"
      "mine_loop H ?b = Some (?b\<lparr>nonce := nonce ?b + int j\<rparr>)" by blast
    from False have "mine_loop H b = mine_loop H ?b"
      by (subst mine_loop.simps) (simp add: proof_of_work_def hash_block_def)
    with j have "mine_loop H b = Some (b\<lparr>nonce := nonce b + int (Suc j)\<rparr>)"
      by (simp add: ac_simps)
    with j(1) show ?thesis by (metis Suc_le_mono)
  qed
qed

lemma mine_loop_sound:
  assumes "mine_loop H b = Some b'"
  shows "proof_of_work H b' \<and> (\<exists>j. b' = b\<lparr>nonce := nonce b + int j\<rparr>)"
proof (rule mine_loop.raw_induct
    [where P = "\<lambda>H b b'. proof_of_work H b' \<and> (\<exists>j. b' = b\<lparr>nonce := nonce b + int j\<rparr>)",
     OF _ assms])
  fix f :: "hasher \<Rightarrow> block \<Rightarrow> block option" and H b b'
  assume IH: "\<And>H b y. f H b = Some y
      \<Longrightarrow> proof_of_work H y \<and> (\<exists>j. y = b\<lparr>nonce := nonce b + int j\<rparr>)"
    and eq: "(if startswith (hash_block H b) ''0000'' then Some b
              else f H (b\<lparr>nonce := nonce b + 1\<rparr>)) = Some b'"
  show "proof_of_work H b' \<and> (\<exists>j. b' = b\<lparr>nonce := nonce b + int j\<rparr>)"
  proof (cases "startswith (hash_block H b) ''0000''")
    case True
    with eq have "b' = b" by simp
    then have "b' = b\<lparr>nonce := nonce b + int 0\<rparr>" by simp
    with True \<open>b' = b\<close> show ?thesis unfolding proof_of_work_def hash_block_def by blast
  next
    case False
    with eq have "f H (b\<lparr>nonce := nonce b + 1\<rparr>) = Some b'" by simp
    from IH[OF this] obtain j where pw: "proof_of_work H b'"
      and j: "b' = b\<lparr>nonce := nonce b + 1 + int j\<rparr>" by auto
    from j have "b' = b\<lparr>nonce := nonce b + int (Suc j)\<rparr>" by (simp add: ac_simps)
    with pw show ?thesis by blast
  qed
qed

lemma demo_hash_GENESIS: "demo_hash GENESIS = ''ffff2025-01-01T00:00:00Z''"
  by (simp add: demo_hash_def GENESIS_def)

lemma demo_block_pow: "proof_of_work demo_hash demo_block"
  by (simp add: proof_of_work_def demo_hash_def demo_block_def startswith_def)

lemma validateChain_spec_demo: "validateChain_spec demo_hash [GENESIS, demo_block]"
  using demo_block_pow by (simp add: validateChain_spec_def demo_block_def)

lemma validateChain_spec_single: "validateChain_spec H [GENESIS]"
  by (simp add: validateChain_spec_def)

lemma dict_get_None: "dict_get d k = None \<longleftrightarrow> \<not> dict_contains d k"
  by (simp add: dict_get_def dict_contains_def map_of_eq_None_iff)

lemma dict_set_absent: "\<not> dict_contains d k \<Longrightarrow> dict_set d k v = d @ [(k, v)]"
  by (induction d) (auto simp: dict_contains_def)

lemma typed_tx_dict_of: "typed_tx (dict_of_tx t) = Some t"
  by (simp add: typed_tx_def dict_of_tx_def)

lemma float_amount_dict_of: "float_amount (dict_of_tx t) = py_float (Number (amount t))"
  by (simp add: float_amount_def dict_of_tx_def)

lemma py_float_Some: "py_float v = Some a \<Longrightarrow> \<exists>n. v = Number n"
  by (cases v) simp_all

lemma passes_checks_typed:
  assumes "passes_checks tx"
  shows "\<exists>t. typed_tx tx = Some t \<and> dict_of_tx t = tx
     \<and> get_tx_id tx = Some (tx_id t) \<and> get_type tx = Some (type t)
     \<and> get_amount tx = Some (Number (amount t))
     \<and> amount_accepted (amount t) \<and> sender t \<noteq> [] \<and> receiver t \<noteq> [] \<and> tx_id t \<noteq> []
     \<and> (type t = ''regular'' \<or> type t = ''coinbase'')"
proof -
  from assms obtain v a where v: "get_amount tx = Some v" "py_float v = Some a" "\<not> le_zero a"
    by (auto simp: passes_checks_def float_amount_def split: option.splits)
  from py_float_Some [OF v(2)] obtain n where n: "v = Number n" ..
  with v have acc: "amount_accepted n" by (simp add: amount_accepted_def)
  from assms obtain f where f: "get_sender tx = Some f" "f \<noteq> []"
    by (cases "get_sender tx") (auto simp: passes_checks_def)
  from assms obtain r where r: "get_receiver tx = Some r" "r \<noteq> []"
    by (cases "get_receiver tx") (auto simp: passes_checks_def)
  from assms obtain i where i: "get_tx_id tx = Some i" "i \<noteq> []"
    by (cases "get_tx_id tx") (auto simp: passes_checks_def)
  from assms obtain ty where ty: "get_type tx = Some ty" "ty = ''regular'' \<or> ty = ''coinbase''"
    by (auto simp: passes_checks_def)
  let ?t = "\<lparr>tx_id = i, sender = f, receiver = r, amount = n, type = ty\<rparr>"
  have "typed_tx tx = Some ?t" by (simp add: typed_tx_def v n f r i ty)
  moreover have "dict_of_tx ?t = tx"
    by (cases tx) (use v n f r i ty in \<open>simp add: dict_of_tx_def\<close>)
  ultimately show ?thesis using v n acc f r i ty by auto
qed

lemma passes_checks_dict_of:
  "passes_checks (dict_of_tx t) \<longleftrightarrow>
     amount_accepted (amount t) \<and> sender t \<noteq> [] \<and> receiver t \<noteq> [] \<and> tx_id t \<noteq> []
     \<and> (type t = ''regular'' \<or> type t = ''coinbase'')"
  by (simp add: passes_checks_def float_amount_dict_of amount_accepted_def)
     (simp add: dict_of_tx_def)

lemma amount_accepted_small_int: "0 < n \<Longrightarrow> n < 2 ^ 64 \<Longrightarrow> amount_accepted (PyInt n)"
proof -
  assume n: "0 < n" "n < 2 ^ 64"
  have "(2::int) ^ 64 < 2 ^ 1024 - 2 ^ 970" by simp
  with n have "\<bar>n\<bar> < float_overflow_bound" by (simp add: float_overflow_bound_def)
  with n show ?thesis by (simp add: amount_accepted_def)
qed

lemma add_transaction_accept:
  assumes "passes_checks tx" and "typed_tx tx = Some t" and "type t = ''regular''"
    and "\<not> dict_contains (mempool s) (tx_id t)"
  shows "add_transaction s tx = ((True, tx), s\<lparr>mempool := mempool s @ [(tx_id t, t)]\<rparr>)"
proof -
  from assms(1) obtain a where a: "float_amount tx = Some a" "\<not> le_zero a"
    by (auto simp: passes_checks_def split: option.splits)
  from passes_checks_typed [OF assms(1)] assms(2)
  have "\<not> falsy (get_sender tx)" "\<not> falsy (get_receiver tx)" "\<not> falsy (get_tx_id tx)"
    "get_type tx = Some (type t)"
    using assms(1) by (auto simp: passes_checks_def)
  with a assms(2,3,4) dict_get_None [of "mempool s" "tx_id t"] show ?thesis
    by (simp add: add_transaction_def dict_set_absent)
qed

lemma add_transaction_reject:
  assumes "\<not> passes_checks tx \<or> get_type tx = Some ''coinbase''
     \<or> (\<exists>i. get_tx_id tx = Some i \<and> dict_contains (mempool s) i)"
  shows "\<not> fst (fst (add_transaction s tx)) \<and> snd (add_transaction s tx) = s"
proof (cases "passes_checks tx")
  case False
  then show ?thesis
    by (auto simp: add_transaction_def passes_checks_def split: option.splits)
next
  case True
  from passes_checks_typed [OF True] obtain t where t: "typed_tx tx = Some t"
    "get_tx_id tx = Some (tx_id t)" "get_type tx = Some (type t)" by blast
  with assms True have "type t = ''coinbase'' \<or> dict_contains (mempool s) (tx_id t)" by auto
  with t dict_get_None [of "mempool s" "tx_id t"] show ?thesis
    by (auto simp: add_transaction_def split: option.splits)
qed

lemma add_transaction_mempool:
  "mempool (snd (add_transaction s tx)) = mempool s
   \<or> (\<exists>t. typed_tx tx = Some t \<and> passes_checks tx \<and> type t = ''regular''
        \<and> \<not> dict_contains (mempool s) (tx_id t)
        \<and> mempool (snd (add_transaction s tx)) = mempool s @ [(tx_id t, t)])"
proof (cases "passes_checks tx \<and> get_type tx = Some ''regular''
    \<and> (\<forall>i. get_tx_id tx = Some i \<longrightarrow> \<not> dict_contains (mempool s) i)")
  case True
  from passes_checks_typed [of tx] True obtain t where t: "typed_tx tx = Some t"
    "get_tx_id tx = Some (tx_id t)" "get_type tx = Some (type t)" by blast
  with True have "type t = ''regular''" "\<not> dict_contains (mempool s) (tx_id t)" by auto
  with True t show ?thesis by (auto simp: add_transaction_accept)
next
  case False
  then have "\<not> passes_checks tx \<or> get_type tx = Some ''coinbase''
     \<or> (\<exists>i. get_tx_id tx = Some i \<and> dict_contains (mempool s) i)"
    by (auto simp: passes_checks_def)
  from add_transaction_reject [OF this] show ?thesis by simp
qed

lemma add_transaction_chain: "chain (snd (add_transaction s tx)) = chain s"
  by (auto simp: add_transaction_def split: option.splits)

lemma add_regular_dict_of:
  assumes "amount_accepted (amount t)" and "sender t \<noteq> []" and "receiver t \<noteq> []"
    and "tx_id t \<noteq> []" and "type t = ''regular''"
    and "\<not> dict_contains (mempool s) (tx_id t)"
  shows "add_transaction s (dict_of_tx t)
      = ((True, dict_of_tx t), s\<lparr>mempool := mempool s @ [(tx_id t, t)]\<rparr>)"
proof -
  from assms(1-5) have "passes_checks (dict_of_tx t)" by (simp add: passes_checks_dict_of)
  from add_transaction_accept [OF this typed_tx_dict_of assms(5,6)] show ?thesis .
qed

lemma demo_tx_accepted: "amount_accepted (amount demo_tx)"
  by (simp add: demo_tx_def amount_accepted_small_int)

lemma add_demo_tx:
  "add_transaction Blockchain_init (dict_of_tx demo_tx) = ((True, dict_of_tx demo_tx), demo_ledger)"
proof -
  have "add_transaction Blockchain_init (dict_of_tx demo_tx)
      = ((True, dict_of_tx demo_tx),
         Blockchain_init\<lparr>mempool := mempool Blockchain_init @ [(tx_id demo_tx, demo_tx)]\<rparr>)"
    by (rule add_regular_dict_of [OF demo_tx_accepted])
       (simp_all add: demo_tx_def Blockchain_init_def dict_contains_def)
  then show ?thesis by (simp add: Blockchain_init_def demo_ledger_def) (simp add: demo_tx_def)
qed

lemma typed_tx_Some: "typed_tx tx = Some t \<Longrightarrow> dict_of_tx t = tx"
  by (cases tx)
     (auto simp: typed_tx_def dict_of_tx_def split: option.splits amount_value.splits)

lemma infinite_tx_accepted: "amount_accepted (amount infinite_tx)"
  by (simp add: infinite_tx_def amount_accepted_def)

lemma mine_block_Some:
  assumes "mine_block H now m s = Some (Inr (blk, s'))"
  shows "chain s \<noteq> []"
    and "\<exists>j. blk = \<lparr>index = int (length (chain s)) + 1, timestamp = now, nonce = 1 + int j,
            previous_hash = H (last (chain s)),
            transactions = coinbase_tx (length (chain s) + 1) m # dict_values (mempool s)\<rparr>"
    and "proof_of_work H blk"
    and "chain s' = chain s @ [blk]"
    and "mempool s' = filter (\<lambda>kv. fst kv \<notin> set (regular_ids (transactions blk))) (mempool s)"
proof -
  show ne: "chain s \<noteq> []"
    using assms by (auto simp: mine_block_def get_latest_block_def split: if_splits)
  let ?cand = "build_block s now 1 (H (last (chain s)))
      (coinbase_tx (length (chain s) + 1) m # dict_values (mempool s))"
  from assms ne have ml: "mine_loop H ?cand = Some blk"
    and s': "s' = s\<lparr>chain := chain s @ [blk],
        mempool := remove_confirmed_from_mempool (transactions blk) (mempool s)\<rparr>"
    by (auto simp: mine_block_def get_latest_block_def hash_block_def Let_def split: option.splits)
  from mine_loop_sound [OF ml] obtain j where pw: "proof_of_work H blk"
    and j: "blk = ?cand\<lparr>nonce := nonce ?cand + int j\<rparr>" by blast
  show "proof_of_work H blk" by (rule pw)
  from j show "\<exists>j. blk = \<lparr>index = int (length (chain s)) + 1, timestamp = now, nonce = 1 + int j,
            previous_hash = H (last (chain s)),
            transactions = coinbase_tx (length (chain s) + 1) m # dict_values (mempool s)\<rparr>"
    by (auto simp: build_block_def)
  from s' show "chain s' = chain s @ [blk]" by simp
  from s' show "mempool s' = filter (\<lambda>kv. fst kv \<notin> set (regular_ids (transactions blk))) (mempool s)"
    by (simp add: remove_confirmed_filter)
qed

lemma mine_block_total:
  assumes "chain s \<noteq> []" and "nonce_findable H"
  shows "\<exists>blk s'. mine_block H now m s = Some (Inr (blk, s'))"
proof -
  let ?cand = "build_block s now 1 (H (last (chain s)))
      (coinbase_tx (length (chain s) + 1) m # dict_values (mempool s))"
  from assms(2) obtain k where "proof_of_work H (?cand\<lparr>nonce := nonce ?cand + int k\<rparr>)"
    unfolding nonce_findable_def by blast
  from mine_loop_found [OF this] obtain b' where "mine_loop H ?cand = Some b'" by blast
  with assms(1) show ?thesis
    by (simp add: mine_block_def get_latest_block_def hash_block_def Let_def)
qed

lemma validate_and_add_block_Inr:
  assumes "validate_and_add_block H s b = Inr (ok, s')"
  shows "s' = s \<or> (chain s' = chain s @ [b]
      \<and> mempool s' = filter (\<lambda>kv. fst kv \<notin> set (regular_ids (transactions b))) (mempool s))"
  using assms
  by (auto simp: validate_and_add_block_def get_latest_block_def remove_confirmed_filter
      split: if_splits)

lemma replace_chain_result:
  "snd (replace_chain H s c) = s
   \<or> (c \<noteq> [] \<and> chain (snd (replace_chain H s c)) = c
      \<and> mempool (snd (replace_chain H s c))
          = filter (\<lambda>kv. fst kv \<notin> set (confirmed_ids c)) (mempool s))"
  by (auto simp: replace_chain_def)

lemma mempool_keyed_filter: "mempool_keyed mp \<Longrightarrow> mempool_keyed (filter P mp)"
  by (simp add: mempool_keyed_def list_all_iff)

lemma mempool_regular_filter: "mempool_regular mp \<Longrightarrow> mempool_regular (filter P mp)"
  by (simp add: mempool_regular_def list_all_iff)

lemma reachable_invariants:
  assumes "reachable H s"
  shows "chain s \<noteq> [] \<and> mempool_keyed (mempool s) \<and> mempool_regular (mempool s)
     \<and> distinct (map fst (mempool s))"
  using assms
proof (induction rule: reachable.induct)
  case fresh
  show ?case by (simp add: Blockchain_init_def mempool_keyed_def mempool_regular_def)
next
  case (submitted s tx)
  from add_transaction_mempool [of s tx] submitted.IH show ?case
    by (auto simp: add_transaction_chain mempool_keyed_def mempool_regular_def
        dict_contains_def)
next
  case (mined s now m blk s')
  from mine_block_Some(4,5) [OF mined.hyps(2)] mined.IH show ?case
    by (simp add: mempool_keyed_filter mempool_regular_filter distinct_map_filter)
next
  case (appended s b ok s')
  from validate_and_add_block_Inr [OF appended.hyps(2)] appended.IH show ?case
    by (auto simp: mempool_keyed_filter mempool_regular_filter distinct_map_filter)
next
  case (replaced s c)
  from replace_chain_result [of H s c] replaced.IH show ?case
    by (auto simp: mempool_keyed_filter mempool_regular_filter distinct_map_filter)
qed

lemma demo_ledger_reachable: "reachable H demo_ledger"
  using reachable.submitted [OF reachable.fresh, of H "dict_of_tx demo_tx"]
  by (simp add: add_demo_tx)

lemma two_pending_reachable: "reachable H two_pending"
proof -
  have "passes_checks (dict_of_tx infinite_tx)"
    using infinite_tx_accepted by (simp add: passes_checks_dict_of) (simp add: infinite_tx_def)
  moreover have "type infinite_tx = ''regular''"
    "\<not> dict_contains (mempool demo_ledger) (tx_id infinite_tx)"
    by (simp_all add: infinite_tx_def demo_ledger_def dict_contains_def)
  ultimately have "add_transaction demo_ledger (dict_of_tx infinite_tx)
      = ((True, dict_of_tx infinite_tx),
         demo_ledger\<lparr>mempool := mempool demo_ledger @ [(tx_id infinite_tx, infinite_tx)]\<rparr>)"
    by (intro add_transaction_accept typed_tx_dict_of)
  then have "snd (add_transaction demo_ledger (dict_of_tx infinite_tx)) = two_pending"
    by (simp add: demo_ledger_def two_pending_def) (simp add: infinite_tx_def)
  with reachable.submitted [OF demo_ledger_reachable, of H "dict_of_tx infinite_tx"]
  show ?thesis by simp
qed

lemma confirming_block_pow: "proof_of_work demo_hash confirming_block"
  by (simp add: proof_of_work_def demo_hash_def confirming_block_def startswith_def)

lemma validateChain_spec_confirming: "validateChain_spec demo_hash [GENESIS, confirming_block]"
  using confirming_block_pow by (simp add: validateChain_spec_def confirming_block_def)

lemma mine_demo_ledger:
  "mine_block demo_hash ''2025-06-01T12:00:00'' ''alice'' demo_ledger
     = Some (Inr (mined_block, \<lparr>chain = [GENESIS, mined_block], mempool = []\<rparr>))"
  by (simp add: mine_block_def get_latest_block_def demo_ledger_def hash_block_def
      build_block_def dict_values_def mine_loop.simps startswith_def demo_hash_def
      mined_block_def GENESIS_def dict_pop_def demo_tx_def coinbase_tx_def Let_def
      numeral_2_eq_2)

lemma indices_sequential_snoc:
  "indices_sequential (c @ [b]) \<longleftrightarrow> indices_sequential c \<and> index b = int (length c) + 1"
  by (auto simp: indices_sequential_def)

lemma indices_sequential_GENESIS: "indices_sequential [GENESIS]"
  by (simp add: indices_sequential_def GENESIS_def)

lemma mined_ledger_reachable_indexed: "reachable_indexed demo_hash mined_ledger"
proof -
  from submitted_ix [OF fresh_ix, of demo_hash "dict_of_tx demo_tx"]
  have "reachable_indexed demo_hash demo_ledger" by (simp add: add_demo_tx)
  from mined_ix [OF this mine_demo_ledger] show ?thesis by (simp add: mined_ledger_def)
qed

lemma nonce_findable_demo_hash: "nonce_findable demo_hash"
  unfolding nonce_findable_def
proof
  fix b :: block
  have "(n + (- n) mod 3) mod 3 = 0" for n :: int by presburger
  then have "(nonce b + int (nat ((- nonce b) mod 3))) mod 3 = 0" by simp
  then have "proof_of_work demo_hash (b\<lparr>nonce := nonce b + int (nat ((- nonce b) mod 3))\<rparr>)"
    by (simp add: proof_of_work_def demo_hash_def startswith_def)
  then show "\<exists>k. proof_of_work demo_hash (b\<lparr>nonce := nonce b + int k\<rparr>)" ..
qed

lemma mine_times_returns:
  assumes "nonce_findable H"
  shows "chain s \<noteq> [] \<Longrightarrow> \<exists>s'. mine_times H calls s = Some (Inr s')"
proof (induction calls arbitrary: s)
  case Nil
  show ?case by simp
next
  case (Cons call calls)
  obtain now m where call: "call = (now, m)" by (cases call)
  from mine_block_total [OF Cons.prems assms] obtain blk s1
    where mb: "mine_block H now m s = Some (Inr (blk, s1))" by blast
  from mine_block_Some(4) [OF mb] have "chain s1 \<noteq> []" by simp
  from Cons.IH [OF this] obtain s' where "mine_times H calls s1 = Some (Inr s')" ..
  with mb show ?case by (simp add: call)
qed

lemma mine_times_result:
  "mine_times H calls s = Some r \<Longrightarrow> chain s \<noteq> [] \<Longrightarrow> mempool s = []
   \<Longrightarrow> is_chain_valid_loop H (chain s) \<Longrightarrow>
    \<exists>s' new. r = Inr s' \<and> mempool s' = []
      \<and> chain s' = chain s @ new \<and> length new = length calls
      \<and> is_chain_valid_loop H (chain s')
      \<and> (\<forall>i<length calls. transactions (new ! i)
            = [coinbase_tx (length (chain s) + i + 1) (snd (calls ! i))])"
proof (induction calls arbitrary: s)
  case Nil
  then show ?case by auto
next
  case (Cons call calls)
  obtain now m where call: "call = (now, m)" by (cases call)
  from Cons.prems(1,2) obtain blk s1
    where mb: "mine_block H now m s = Some (Inr (blk, s1))"
      and run: "mine_times H calls s1 = Some r"
    by (auto simp: call mine_block_def get_latest_block_def Let_def split: option.splits)
  note facts = mine_block_Some [OF mb]
  from facts(2) Cons.prems(3)
  have txs: "transactions blk = [coinbase_tx (length (chain s) + 1) m]"
    and prev: "previous_hash blk = H (last (chain s))"
    by (auto simp: dict_values_def)
  from facts(5) Cons.prems(3) have mp1: "mempool s1 = []" by simp
  from facts(4) have ne1: "chain s1 \<noteq> []" by simp
  from facts(3,4) prev Cons.prems(4) have v1: "is_chain_valid_loop H (chain s1)"
    by (simp add: is_chain_valid_loop_snoc)
  from Cons.IH [OF run ne1 mp1 v1] obtain s' new
    where r: "r = Inr s'" and mp': "mempool s' = []"
      and ch: "chain s' = chain s1 @ new" and len: "length new = length calls"
      and v': "is_chain_valid_loop H (chain s')"
      and cb: "\<forall>i<length calls. transactions (new ! i)
            = [coinbase_tx (length (chain s1) + i + 1) (snd (calls ! i))]"
    by blast
  have "chain s' = chain s @ (blk # new)" using ch facts(4) by simp
  moreover have "length (blk # new) = length (call # calls)" using len by simp
  moreover have "\<forall>i<length (call # calls). transactions ((blk # new) ! i)
            = [coinbase_tx (length (chain s) + i + 1) (snd ((call # calls) ! i))]"
  proof (intro allI impI)
    fix i assume i: "i < length (call # calls)"
    show "transactions ((blk # new) ! i)
            = [coinbase_tx (length (chain s) + i + 1) (snd ((call # calls) ! i))]"
    proof (cases i)
      case 0
      then show ?thesis by (simp add: txs call)
    next
      case (Suc j)
      with i have "j < length calls" by simp
      with cb have "transactions (new ! j)
          = [coinbase_tx (length (chain s1) + j + 1) (snd (calls ! j))]" by blast
      then show ?thesis by (simp add: Suc facts(4))
    qed
  qed
  ultimately show ?case using r mp' v' by blast
qed

lemma listen_new_block:
  assumes "chain (blockchain n) \<noteq> []"
  shows "listen H n (New_block b) addr =
    (if previous_hash b = H (last (chain (blockchain n))) \<and> proof_of_work H b
     then (n\<lparr>blockchain := (blockchain n)\<lparr>chain := chain (blockchain n) @ [b],
            mempool := remove_confirmed_from_mempool (transactions b) (mempool (blockchain n))\<rparr>\<rparr>, [])
     else (n, [(REQ_CHAIN, addr)]))"
  using assms
  by (simp add: listen_def validate_and_add_block_def get_latest_block_def hash_block_def
      proof_of_work_def request_full_chain_from_def send_def)

lemma listen_dropped:
  "falsy (get_tx_id tx) \<or> (\<exists>i. get_tx_id tx = Some i \<and> i \<in> seen_tx_ids n)
   \<Longrightarrow> listen H n (New_transaction tx ttl_field) addr = (n, [])"
  by (cases "get_tx_id tx") (auto simp: listen_def)

lemma listen_processed:
  assumes "get_tx_id tx = Some i" and "i \<noteq> []" and "i \<notin> seen_tx_ids n"
  shows "fst (listen H n (New_transaction tx ttl_field) addr)
       = n\<lparr>seen_tx_ids := insert i (seen_tx_ids n),
           blockchain := snd (add_transaction (blockchain n) tx)\<rparr>"
    and "snd (listen H n (New_transaction tx ttl_field) addr)
       = (if 0 < ttl_of ttl_field
          then map (\<lambda>p. (New_transaction tx (Some (ttl_of ttl_field - 1)), p))
                 (filter (\<lambda>p. p \<noteq> addr) (peers n))
          else [])"
  using assms by (simp_all add: listen_def Let_def broadcast_def)

lemma validate_and_add_block_no_tip:
  "chain s = [] \<Longrightarrow> validate_and_add_block H s b = Inl IndexError"
  by (simp add: validate_and_add_block_def get_latest_block_def)

lemma mine_block_no_tip:
  "chain s = [] \<Longrightarrow> mine_block H now m s = Some (Inl IndexError)"
  by (simp add: mine_block_def get_latest_block_def)

lemma misnumbered_block_any_hash:
  assumes "proof_of_work H b" and "previous_hash b = H GENESIS" and "index b \<noteq> 2"
  shows "reachable H \<lparr>chain = [GENESIS, b], mempool = []\<rparr>"
    and "\<not> indices_sequential (chain \<lparr>chain = [GENESIS, b], mempool = []\<rparr>)"
proof -
  from assms(1,2)
  have "validate_and_add_block H Blockchain_init b
      = Inr (True, \<lparr>chain = [GENESIS, b], mempool = []\<rparr>)"
    by (simp add: validate_and_add_block_def get_latest_block_def Blockchain_init_def
        hash_block_def proof_of_work_def remove_confirmed_filter)
  from reachable.appended [OF reachable.fresh this]
  show "reachable H \<lparr>chain = [GENESIS, b], mempool = []\<rparr>" .
  from assms(3) show "\<not> indices_sequential (chain \<lparr>chain = [GENESIS, b], mempool = []\<rparr>)"
    by (simp add: indices_sequential_def GENESIS_def)
qed

lemma squatter_ledger_reachable: "reachable H squatter_ledger"
proof -
  have "amount_accepted (amount squatter_tx)"
    by (simp add: squatter_tx_def amount_accepted_small_int)
  then have "add_transaction Blockchain_init (dict_of_tx squatter_tx)
      = ((True, dict_of_tx squatter_tx),
         Blockchain_init\<lparr>mempool := mempool Blockchain_init @ [(tx_id squatter_tx, squatter_tx)]\<rparr>)"
    by (rule add_regular_dict_of)
       (simp_all add: squatter_tx_def Blockchain_init_def dict_contains_def)
  then have "snd (add_transaction Blockchain_init (dict_of_tx squatter_tx)) = squatter_ledger"
    by (simp add: Blockchain_init_def squatter_ledger_def) (simp add: squatter_tx_def)
  with reachable.submitted [OF reachable.fresh, of H "dict_of_tx squatter_tx"]
  show ?thesis by simp
qed

lemma alice_block_valid: "validateChain_spec sha256_known [GENESIS, alice_block]"
proof -
  have ne: "alice_block \<noteq> GENESIS" "alice_block \<noteq> misnumbered_block"
    by (simp_all add: alice_block_def GENESIS_def misnumbered_block_def)
  then have "proof_of_work sha256_known alice_block"
    by (simp add: proof_of_work_def sha256_known_def startswith_def)
  moreover have "previous_hash alice_block = sha256_known GENESIS"
    by (simp add: sha256_known_def alice_block_def)
  ultimately show ?thesis by (simp add: validateChain_spec_def)
qed

section \<open>Chain replacement\<close>

text \<open>
  Claim C1. \<open>replace_chain\<close> adopts the candidate chain if and only if the candidate
  passes chain validation and is strictly longer than the current chain. Validation
  is stated twice, as the source's \<open>is_chain_valid\<close> and in the specification's
  words. When the candidate is adopted the chain becomes the candidate; when it is
  rejected the whole ledger, chain and mempool, is what it was.
\<close>

theorem replace_chain_adopts_iff:
  "(fst (replace_chain H s c) \<longleftrightarrow>
      is_chain_valid H s (Some c) \<and> length (chain s) < length c)
   \<and> (fst (replace_chain H s c) \<longleftrightarrow>
      validateChain_spec H c \<and> length (chain s) < length c)
   \<and> (fst (replace_chain H s c) \<longrightarrow> chain (snd (replace_chain H s c)) = c)
   \<and> (\<not> fst (replace_chain H s c) \<longrightarrow> snd (replace_chain H s c) = s)"
proof -
  have code: "fst (replace_chain H s c) \<longleftrightarrow>
      is_chain_valid H s (Some c) \<and> length (chain s) < length c"
    by (auto simp: replace_chain_def)
  have spec: "(is_chain_valid H s (Some c) \<and> length (chain s) < length c) \<longleftrightarrow>
      (validateChain_spec H c \<and> length (chain s) < length c)"
  proof (cases "c = []")
    case True
    then show ?thesis by simp
  next
    case False
    then show ?thesis by (simp add: is_chain_valid_nonempty)
  qed
  have adopt: "fst (replace_chain H s c) \<longrightarrow> chain (snd (replace_chain H s c)) = c"
    by (simp add: replace_chain_def)
  have reject: "\<not> fst (replace_chain H s c) \<longrightarrow> snd (replace_chain H s c) = s"
    by (simp add: replace_chain_def)
  from code spec adopt reject show ?thesis by blast
qed

theorem replace_chain_adopts_iff_witness:
  "fst (replace_chain demo_hash Blockchain_init [GENESIS, demo_block])
   \<and> chain (snd (replace_chain demo_hash Blockchain_init [GENESIS, demo_block]))
       = [GENESIS, demo_block]
   \<and> \<not> fst (replace_chain demo_hash Blockchain_init [GENESIS])
   \<and> snd (replace_chain demo_hash Blockchain_init [GENESIS]) = Blockchain_init"
proof -
  have longer: "length (chain Blockchain_init) < length [GENESIS, demo_block]"
    and same: "\<not> length (chain Blockchain_init) < length [GENESIS]"
    by (simp_all add: Blockchain_init_def)
  from replace_chain_adopts_iff [of demo_hash Blockchain_init "[GENESIS, demo_block]"]
    validateChain_spec_demo longer
  have adopted: "fst (replace_chain demo_hash Blockchain_init [GENESIS, demo_block])
      \<and> chain (snd (replace_chain demo_hash Blockchain_init [GENESIS, demo_block]))
          = [GENESIS, demo_block]"
    by blast
  from replace_chain_adopts_iff [of demo_hash Blockchain_init "[GENESIS]"] same
  have rejected: "\<not> fst (replace_chain demo_hash Blockchain_init [GENESIS])
      \<and> snd (replace_chain demo_hash Blockchain_init [GENESIS]) = Blockchain_init"
    by blast
  from adopted rejected show ?thesis by blast
qed

text \<open>
  Claim C5, as amended. After a successful \<open>replace_chain\<close> the mempool is the prior
  mempool without the entries whose id is that of a regular transaction in the
  adopted chain, in the prior order. Every entry it holds was in the prior mempool,
  so nothing is brought back from the discarded chain. No coinbase transaction is in
  it: on every ledger the operations can produce, each entry is a regular transaction
  stored under its own id. The id of a coinbase transaction can be a key all the
  same, when a regular transaction was submitted under it.
\<close>

theorem replace_chain_mempool:
  assumes "fst (replace_chain H s c)"
  shows "mempool (snd (replace_chain H s c))
       = filter (\<lambda>kv. fst kv \<notin> (\<Union>b \<in> set c. set (regular_ids (transactions b)))) (mempool s)
     \<and> set (mempool (snd (replace_chain H s c))) \<subseteq> set (mempool s)
     \<and> (reachable H s \<longrightarrow> mempool_regular (mempool (snd (replace_chain H s c)))
          \<and> mempool_keyed (mempool (snd (replace_chain H s c))))"
proof -
  from assms have m: "mempool (snd (replace_chain H s c))
      = filter (\<lambda>kv. fst kv \<notin> set (confirmed_ids c)) (mempool s)"
    by (auto simp: replace_chain_def split: if_splits)
  then have a: "mempool (snd (replace_chain H s c))
       = filter (\<lambda>kv. fst kv \<notin> (\<Union>b \<in> set c. set (regular_ids (transactions b)))) (mempool s)"
    by (simp only: set_confirmed_ids)
  from m have b: "set (mempool (snd (replace_chain H s c))) \<subseteq> set (mempool s)" by auto
  have c: "reachable H s \<longrightarrow> mempool_regular (mempool (snd (replace_chain H s c)))
      \<and> mempool_keyed (mempool (snd (replace_chain H s c)))"
    using reachable_invariants [of H s] m
    by (simp add: mempool_regular_filter mempool_keyed_filter)
  from a b c show ?thesis by blast
qed

theorem replace_chain_mempool_witness:
  "fst (replace_chain demo_hash two_pending [GENESIS, confirming_block])
   \<and> mempool (snd (replace_chain demo_hash two_pending [GENESIS, confirming_block]))
       = [(''t2'', infinite_tx)]
   \<and> mempool_regular (mempool (snd (replace_chain demo_hash two_pending [GENESIS, confirming_block])))"
proof -
  have adopted: "fst (replace_chain demo_hash two_pending [GENESIS, confirming_block])"
    using validateChain_spec_confirming
    by (simp add: replace_chain_def is_chain_valid_nonempty two_pending_def)
  have ids: "(\<Union>b \<in> set [GENESIS, confirming_block]. set (regular_ids (transactions b))) = {''t1''}"
    by (auto simp: regular_ids_def GENESIS_def confirming_block_def demo_tx_def)
  from replace_chain_mempool [OF adopted] two_pending_reachable [of demo_hash]
  have m: "mempool (snd (replace_chain demo_hash two_pending [GENESIS, confirming_block]))
       = filter (\<lambda>kv. fst kv \<notin> (\<Union>b \<in> set [GENESIS, confirming_block].
            set (regular_ids (transactions b)))) (mempool two_pending)"
    and r: "mempool_regular (mempool (snd (replace_chain demo_hash two_pending
        [GENESIS, confirming_block])))"
    by blast+
  from m have "mempool (snd (replace_chain demo_hash two_pending [GENESIS, confirming_block]))
       = [(''t2'', infinite_tx)]"
    unfolding ids by (simp add: two_pending_def)
  with adopted r show ?thesis by blast
qed

text \<open>
  The claim as stated keeps every coinbase id out of the mempool. \<open>add_transaction\<close>
  checks only that an id is not empty, and \<open>replace_chain\<close> removes only the ids of
  regular transactions: a regular transaction submitted as \<^verbatim>\<open>coinbase-2\<close> is
  pending, the chain whose second block was mined by \<^verbatim>\<open>alice\<close> is adopted, and
  the id of that block's coinbase transaction is still a key of the mempool.
\<close>

theorem coinbase_id_pending:
  "reachable sha256_known squatter_ledger
   \<and> fst (replace_chain sha256_known squatter_ledger [GENESIS, alice_block])
   \<and> transactions alice_block = [coinbase_tx 2 ''alice'']
   \<and> type (coinbase_tx 2 ''alice'') = ''coinbase''
   \<and> tx_id (coinbase_tx 2 ''alice'') = ''coinbase-2''
   \<and> mempool (snd (replace_chain sha256_known squatter_ledger [GENESIS, alice_block]))
       = [(''coinbase-2'', squatter_tx)]"
proof -
  have adopted: "fst (replace_chain sha256_known squatter_ledger [GENESIS, alice_block])"
    using alice_block_valid
    by (simp add: replace_chain_def is_chain_valid_nonempty squatter_ledger_def)
  have ids: "confirmed_ids [GENESIS, alice_block] = []"
    by (simp add: confirmed_ids_def GENESIS_def alice_block_def coinbase_tx_def)
  from adopted have "mempool (snd (replace_chain sha256_known squatter_ledger [GENESIS, alice_block]))
      = filter (\<lambda>kv. fst kv \<notin> set (confirmed_ids [GENESIS, alice_block])) (mempool squatter_ledger)"
    by (auto simp: replace_chain_def split: if_splits)
  then have kept: "mempool (snd (replace_chain sha256_known squatter_ledger [GENESIS, alice_block]))
       = [(''coinbase-2'', squatter_tx)]"
    unfolding ids by (simp add: squatter_ledger_def)
  have cb: "transactions alice_block = [coinbase_tx 2 ''alice'']"
    "type (coinbase_tx 2 ''alice'') = ''coinbase''"
    "tx_id (coinbase_tx 2 ''alice'') = ''coinbase-2''"
    by (simp_all add: alice_block_def coinbase_tx_def string_of_nat.simps)
  from squatter_ledger_reachable [of sha256_known] adopted cb kept show ?thesis by simp
qed

section \<open>Chain validation\<close>

text \<open>
  Claim C2. Chain validation is claimed to hold exactly for the non-empty chains that
  start at Genesis and are linked with proof of work, and in particular to fail for
  the empty chain. For non-empty chains this is \<open>is_chain_valid_nonempty\<close>. For the
  empty chain the source differs: \<^verbatim>\<open>chain or self.chain\<close> replaces the empty
  argument by the node's own chain before the emptiness test, so a fresh ledger
  answers true.
\<close>

theorem is_chain_valid_empty_argument:
  "is_chain_valid H Blockchain_init (Some []) \<and> \<not> validateChain_spec H []"
  by (simp add: is_chain_valid_def Blockchain_init_def validateChain_spec_def)

theorem is_chain_valid_empty_argument_witness:
  "is_chain_valid demo_hash Blockchain_init (Some []) \<and> \<not> validateChain_spec demo_hash []"
  using is_chain_valid_empty_argument [of demo_hash] by simp

section \<open>Appending a received block\<close>

text \<open>
  Claim C3. On a ledger with a tip, \<open>validate_and_add_block\<close> returns true if and
  only if the block's previous hash is the hash of the tip and the block carries
  proof of work. When it returns true the block is appended and the ids of the
  block's regular transactions are removed from the mempool; when it returns false
  the ledger is unchanged.
\<close>

theorem validate_and_add_block_correct:
  assumes "chain s \<noteq> []"
  shows "\<exists>ok s'. validate_and_add_block H s b = Inr (ok, s')
     \<and> (ok \<longleftrightarrow> previous_hash b = H (last (chain s)) \<and> proof_of_work H b)
     \<and> (ok \<longrightarrow> chain s' = chain s @ [b]
            \<and> mempool s' = filter (\<lambda>kv. fst kv \<notin> set (regular_ids (transactions b))) (mempool s))
     \<and> (\<not> ok \<longrightarrow> s' = s)"
  using assms
  by (auto simp: validate_and_add_block_def get_latest_block_def hash_block_def
      proof_of_work_def remove_confirmed_filter)

theorem validate_and_add_block_correct_witness:
  "validate_and_add_block demo_hash Blockchain_init demo_block
     = Inr (True, \<lparr>chain = [GENESIS, demo_block], mempool = []\<rparr>)
   \<and> validate_and_add_block demo_hash Blockchain_init GENESIS = Inr (False, Blockchain_init)"
proof -
  have ne: "chain Blockchain_init \<noteq> []" by (simp add: Blockchain_init_def)
  have link: "previous_hash demo_block = demo_hash (last (chain Blockchain_init))"
    by (simp add: demo_block_def Blockchain_init_def)
  have nolink: "previous_hash GENESIS \<noteq> demo_hash (last (chain Blockchain_init))"
    by (simp add: Blockchain_init_def demo_hash_GENESIS) (simp add: GENESIS_def)
  from validate_and_add_block_correct [OF ne, of demo_hash demo_block] link demo_block_pow
  obtain s' where "validate_and_add_block demo_hash Blockchain_init demo_block = Inr (True, s')"
    "chain s' = chain Blockchain_init @ [demo_block]"
    "mempool s' = filter (\<lambda>kv. fst kv \<notin> set (regular_ids (transactions demo_block)))
        (mempool Blockchain_init)"
    by auto
  then have yes: "validate_and_add_block demo_hash Blockchain_init demo_block
     = Inr (True, \<lparr>chain = [GENESIS, demo_block], mempool = []\<rparr>)"
    by (cases s') (simp add: Blockchain_init_def)
  from validate_and_add_block_correct [OF ne, of demo_hash GENESIS] nolink
  have no: "validate_and_add_block demo_hash Blockchain_init GENESIS = Inr (False, Blockchain_init)"
    by auto
  from yes no show ?thesis by blast
qed

section \<open>Submitting a transaction\<close>




text \<open>
  Claim C7. \<open>add_transaction\<close> is idempotent on a pending id. When the id of a
  submission is pending, the result is \<open>added = False\<close> and the ledger is unchanged,
  and a repeat submission, which passes the checks before the lookup as the accepted
  one did, is answered with the originally stored entry, whatever its own other
  fields are. (A submission that fails one of those checks is turned away by it and
  gets itself back, like any invalid submission.) A transaction that has just been
  accepted is answered, on a second submission, with \<open>added = False\<close>, itself as
  the stored entry, and an unchanged ledger.
\<close>

theorem add_transaction_duplicate:
  "(get_tx_id tx = Some i \<and> dict_get (mempool s) i = Some stored \<longrightarrow>
      \<not> fst (fst (add_transaction s tx)) \<and> snd (add_transaction s tx) = s
      \<and> (passes_checks tx \<longrightarrow> snd (fst (add_transaction s tx)) = dict_of_tx stored)
      \<and> (\<not> passes_checks tx \<longrightarrow> snd (fst (add_transaction s tx)) = tx))
   \<and> (fst (fst (add_transaction s tx)) \<longrightarrow>
      add_transaction (snd (add_transaction s tx)) tx = ((False, tx), snd (add_transaction s tx)))"
proof (intro conjI impI)
  assume d: "get_tx_id tx = Some i \<and> dict_get (mempool s) i = Some stored"
  then have "dict_contains (mempool s) i"
    using dict_get_None [of "mempool s" i] by simp
  with d have "\<not> fst (fst (add_transaction s tx)) \<and> snd (add_transaction s tx) = s"
    by (intro add_transaction_reject) blast
  then show "\<not> fst (fst (add_transaction s tx))" and "snd (add_transaction s tx) = s"
    by simp_all
  show "snd (fst (add_transaction s tx)) = dict_of_tx stored" if p: "passes_checks tx"
  proof -
    from passes_checks_typed [OF p] d obtain t where t: "typed_tx tx = Some t" "tx_id t = i"
      by auto
    with p d show ?thesis
      by (auto simp: add_transaction_def passes_checks_def split: option.splits)
  qed
  show "snd (fst (add_transaction s tx)) = tx" if "\<not> passes_checks tx"
    using that by (auto simp: add_transaction_def passes_checks_def split: option.splits)
next
  assume acc: "fst (fst (add_transaction s tx))"
  then have p: "passes_checks tx" and ty: "get_type tx \<noteq> Some ''coinbase''"
    and fresh: "\<forall>i. get_tx_id tx = Some i \<longrightarrow> \<not> dict_contains (mempool s) i"
    using add_transaction_reject [of tx s] by blast+
  from passes_checks_typed [OF p] obtain t where t: "typed_tx tx = Some t"
    "get_tx_id tx = Some (tx_id t)" "get_type tx = Some (type t)"
    "type t = ''regular'' \<or> type t = ''coinbase''" by blast
  with ty fresh have reg: "type t = ''regular''" and nd: "\<not> dict_contains (mempool s) (tx_id t)"
    by auto
  from add_transaction_accept [OF p t(1) reg nd]
  have s1: "snd (add_transaction s tx) = s\<lparr>mempool := mempool s @ [(tx_id t, t)]\<rparr>" by simp
  from nd have "dict_get (mempool s @ [(tx_id t, t)]) (tx_id t) = Some t"
    using dict_get_None [of "mempool s" "tx_id t"] by (simp add: dict_get_def map_add_def)
  moreover from t(1) have "dict_of_tx t = tx" by (rule typed_tx_Some)
  ultimately show "add_transaction (snd (add_transaction s tx)) tx
      = ((False, tx), snd (add_transaction s tx))"
    unfolding s1 using p t(1)
    by (auto simp: add_transaction_def passes_checks_def split: option.splits)
qed

theorem add_transaction_duplicate_witness:
  "add_transaction demo_ledger (dict_of_tx demo_tx) = ((False, dict_of_tx demo_tx), demo_ledger)
   \<and> fst (fst (add_transaction Blockchain_init (dict_of_tx demo_tx)))
   \<and> add_transaction (snd (add_transaction Blockchain_init (dict_of_tx demo_tx))) (dict_of_tx demo_tx)
       = ((False, dict_of_tx demo_tx), snd (add_transaction Blockchain_init (dict_of_tx demo_tx)))"
proof -
  have d: "get_tx_id (dict_of_tx demo_tx) = Some ''t1''
      \<and> dict_get (mempool demo_ledger) ''t1'' = Some demo_tx"
    by (simp add: demo_ledger_def dict_get_def dict_of_tx_def) (simp add: demo_tx_def)
  have p: "passes_checks (dict_of_tx demo_tx)"
    using demo_tx_accepted by (simp add: passes_checks_dict_of) (simp add: demo_tx_def)
  from add_transaction_duplicate [of "dict_of_tx demo_tx" "''t1''" demo_ledger demo_tx] d p
  have first: "add_transaction demo_ledger (dict_of_tx demo_tx)
      = ((False, dict_of_tx demo_tx), demo_ledger)"
    by (metis prod.collapse)
  have acc: "fst (fst (add_transaction Blockchain_init (dict_of_tx demo_tx)))"
    by (simp add: add_demo_tx)
  from add_transaction_duplicate [of "dict_of_tx demo_tx" "''t1''" Blockchain_init demo_tx] acc
  have "add_transaction (snd (add_transaction Blockchain_init (dict_of_tx demo_tx))) (dict_of_tx demo_tx)
       = ((False, dict_of_tx demo_tx), snd (add_transaction Blockchain_init (dict_of_tx demo_tx)))"
    by blast
  with first acc show ?thesis by blast
qed

section \<open>Mining\<close>

text \<open>
  Claim C10. On a ledger whose mempool holds only regular transactions, each stored
  under its own id, a call of \<open>mine_block\<close> that returns leaves the mempool empty:
  the mined block carries the coinbase transaction followed by every pending
  transaction, and all of those are then removed as confirmed.
\<close>

theorem mine_block_empties_mempool:
  assumes "mempool_keyed (mempool s)" and "mempool_regular (mempool s)"
    and "mine_block H now m s = Some (Inr (blk, s'))"
  shows "mempool s' = []
     \<and> transactions blk = coinbase_tx (length (chain s) + 1) m # dict_values (mempool s)"
proof -
  from mine_block_Some(2) [OF assms(3)]
  have txs: "transactions blk = coinbase_tx (length (chain s) + 1) m # dict_values (mempool s)"
    by auto
  have "fst kv \<in> set (regular_ids (transactions blk))" if "kv \<in> set (mempool s)" for kv
  proof -
    from that assms(1,2) have "fst kv = tx_id (snd kv)" and "type (snd kv) = ''regular''"
      by (simp_all add: mempool_keyed_def mempool_regular_def list_all_iff)
    moreover from that have "snd kv \<in> set (transactions blk)"
      by (simp add: txs dict_values_def)
    ultimately show ?thesis by (auto simp: regular_ids_def)
  qed
  then have "filter (\<lambda>kv. fst kv \<notin> set (regular_ids (transactions blk))) (mempool s) = []"
    by (simp add: filter_empty_conv)
  with mine_block_Some(5) [OF assms(3)] txs show ?thesis by simp
qed

theorem mine_block_empties_mempool_witness:
  "mine_block demo_hash ''2025-06-01T12:00:00'' ''alice'' demo_ledger
     = Some (Inr (mined_block, \<lparr>chain = [GENESIS, mined_block], mempool = []\<rparr>))
   \<and> transactions mined_block = [coinbase_tx 2 ''alice'', demo_tx]"
proof -
  have k: "mempool_keyed (mempool demo_ledger)" and r: "mempool_regular (mempool demo_ledger)"
    by (simp_all add: mempool_keyed_def mempool_regular_def demo_ledger_def demo_tx_def)
  from mine_block_empties_mempool [OF k r mine_demo_ledger]
  have "transactions mined_block
      = coinbase_tx (length (chain demo_ledger) + 1) ''alice'' # dict_values (mempool demo_ledger)"
    by simp
  then have "transactions mined_block = [coinbase_tx 2 ''alice'', demo_tx]"
    by (simp add: demo_ledger_def dict_values_def numeral_2_eq_2)
  with mine_demo_ledger show ?thesis by simp
qed

text \<open>
  Claim C6. Mining \<open>n\<close> times on a fresh ledger, each call with its own clock
  reading and miner address, returns whenever the digest lets every nonce search
  end. Whenever it returns, the chain has \<open>n + 1\<close> blocks and begins with Genesis;
  each block after the first names the hash of the block before it and carries
  proof of work, and its transaction list is the coinbase transaction that pays the
  call's miner address the reward of 50.
\<close>

theorem mine_times_fresh:
  "(nonce_findable H \<longrightarrow> (\<exists>s'. mine_times H calls Blockchain_init = Some (Inr s')))
   \<and> (\<forall>r. mine_times H calls Blockchain_init = Some r \<longrightarrow>
        (\<exists>s'. r = Inr s'
           \<and> length (chain s') = length calls + 1
           \<and> hd (chain s') = GENESIS
           \<and> (\<forall>i<length calls.
                previous_hash (chain s' ! Suc i) = H (chain s' ! i)
                \<and> proof_of_work H (chain s' ! Suc i)
                \<and> transactions (chain s' ! Suc i)
                    = [\<lparr>tx_id = ''coinbase-'' @ string_of_nat (i + 2), sender = ''COINBASE'',
                        receiver = snd (calls ! i), amount = PyFloat (Finite 50),
                        type = ''coinbase''\<rparr>])))"
proof (intro conjI impI allI)
  assume "nonce_findable H"
  from mine_times_returns [OF this, of Blockchain_init calls]
  show "\<exists>s'. mine_times H calls Blockchain_init = Some (Inr s')"
    by (simp add: Blockchain_init_def)
next
  fix r assume run: "mine_times H calls Blockchain_init = Some r"
  have "chain Blockchain_init \<noteq> []" "mempool Blockchain_init = []"
    "is_chain_valid_loop H (chain Blockchain_init)"
    by (simp_all add: Blockchain_init_def)
  from mine_times_result [OF run this] obtain s' new
    where r: "r = Inr s'"
      and ch: "chain s' = [GENESIS] @ new" and len: "length new = length calls"
      and v: "is_chain_valid_loop H (chain s')"
      and cb: "\<forall>i<length calls. transactions (new ! i)
            = [coinbase_tx (length [GENESIS] + i + 1) (snd (calls ! i))]"
    by (auto simp: Blockchain_init_def)
  have "\<forall>i<length calls.
          previous_hash (chain s' ! Suc i) = H (chain s' ! i)
          \<and> proof_of_work H (chain s' ! Suc i)
          \<and> transactions (chain s' ! Suc i)
              = [\<lparr>tx_id = ''coinbase-'' @ string_of_nat (i + 2), sender = ''COINBASE'',
                  receiver = snd (calls ! i), amount = PyFloat (Finite 50), type = ''coinbase''\<rparr>]"
  proof (intro allI impI)
    fix i assume i: "i < length calls"
    then have "Suc i < length (chain s')" by (simp add: ch len)
    with v have "previous_hash (chain s' ! Suc i) = H (chain s' ! i)"
      and "proof_of_work H (chain s' ! Suc i)"
      by (simp_all add: is_chain_valid_loop_nth)
    moreover from cb i have "transactions (chain s' ! Suc i)
        = [coinbase_tx (i + 2) (snd (calls ! i))]"
      by (simp add: ch add.commute)
    ultimately show "previous_hash (chain s' ! Suc i) = H (chain s' ! i)
          \<and> proof_of_work H (chain s' ! Suc i)
          \<and> transactions (chain s' ! Suc i)
              = [\<lparr>tx_id = ''coinbase-'' @ string_of_nat (i + 2), sender = ''COINBASE'',
                  receiver = snd (calls ! i), amount = PyFloat (Finite 50), type = ''coinbase''\<rparr>]"
      by (simp add: coinbase_tx_def BLOCK_REWARD_def)
  qed
  with r ch len show "\<exists>s'. r = Inr s'
           \<and> length (chain s') = length calls + 1
           \<and> hd (chain s') = GENESIS
           \<and> (\<forall>i<length calls.
                previous_hash (chain s' ! Suc i) = H (chain s' ! i)
                \<and> proof_of_work H (chain s' ! Suc i)
                \<and> transactions (chain s' ! Suc i)
                    = [\<lparr>tx_id = ''coinbase-'' @ string_of_nat (i + 2), sender = ''COINBASE'',
                        receiver = snd (calls ! i), amount = PyFloat (Finite 50),
                        type = ''coinbase''\<rparr>])"
    by simp
qed

theorem mine_times_fresh_witness:
  "\<exists>s'. mine_times demo_hash [(''2025-06-01T12:00:00'', ''alice''), (''2025-06-01T12:05:00'', ''alice'')]
        Blockchain_init = Some (Inr s')
     \<and> length (chain s') = 3
     \<and> transactions (chain s' ! 1)
         = [\<lparr>tx_id = ''coinbase-2'', sender = ''COINBASE'', receiver = ''alice'',
             amount = PyFloat (Finite 50), type = ''coinbase''\<rparr>]
     \<and> previous_hash (chain s' ! 2) = demo_hash (chain s' ! 1)
     \<and> proof_of_work demo_hash (chain s' ! 2)"
proof -
  let ?calls = "[(''2025-06-01T12:00:00'', ''alice''), (''2025-06-01T12:05:00'', ''alice'')]"
  note inst = mine_times_fresh [of demo_hash ?calls]
  from inst nonce_findable_demo_hash obtain s'
    where run: "mine_times demo_hash ?calls Blockchain_init = Some (Inr s')" by blast
  with inst have len: "length (chain s') = length ?calls + 1"
      and each: "\<forall>i<length ?calls.
          previous_hash (chain s' ! Suc i) = demo_hash (chain s' ! i)
          \<and> proof_of_work demo_hash (chain s' ! Suc i)
          \<and> transactions (chain s' ! Suc i)
              = [\<lparr>tx_id = ''coinbase-'' @ string_of_nat (i + 2), sender = ''COINBASE'',
                  receiver = snd (?calls ! i), amount = PyFloat (Finite 50), type = ''coinbase''\<rparr>]"
    by blast+
  from each [rule_format, of 0] have first: "transactions (chain s' ! 1)
         = [\<lparr>tx_id = ''coinbase-2'', sender = ''COINBASE'', receiver = ''alice'',
             amount = PyFloat (Finite 50), type = ''coinbase''\<rparr>]"
    by (simp add: string_of_nat.simps)
  from each [rule_format, of 1] have second: "previous_hash (chain s' ! 2) = demo_hash (chain s' ! 1)"
    "proof_of_work demo_hash (chain s' ! 2)"
    by (simp_all add: numeral_2_eq_2)
  from run len first second show ?thesis by simp
qed

section \<open>Block indices\<close>

text \<open>
  Claim C9, as amended. The index of every block is its 1-based position in every
  chain that the operations produce when each block received from a peer carries the
  index of the position it is appended at, and each candidate chain is numbered 1, 2,
  3 and so on. Blocks that the node mines itself always are.
\<close>

theorem reachable_indexed_sequential:
  assumes "reachable_indexed H s"
  shows "indices_sequential (chain s)"
  using assms
proof (induction rule: reachable_indexed.induct)
  case fresh_ix
  show ?case by (simp add: Blockchain_init_def indices_sequential_GENESIS)
next
  case (submitted_ix s tx)
  then show ?case by (simp add: add_transaction_chain)
next
  case (mined_ix s now m blk s')
  from mine_block_Some(2) [OF mined_ix.hyps(2)] have "index blk = int (length (chain s)) + 1"
    by auto
  with mine_block_Some(4) [OF mined_ix.hyps(2)] mined_ix.IH show ?case
    by (simp add: indices_sequential_snoc)
next
  case (appended_ix s b ok s')
  from validate_and_add_block_Inr [OF appended_ix.hyps(3)] appended_ix.hyps(2) appended_ix.IH
  show ?case by (auto simp: indices_sequential_snoc)
next
  case (replaced_ix s c)
  from replace_chain_result [of H s c] replaced_ix.hyps(2) replaced_ix.IH
  show ?case by auto
qed

theorem reachable_indexed_sequential_witness:
  "reachable_indexed demo_hash mined_ledger \<and> indices_sequential (chain mined_ledger)"
  using reachable_indexed_sequential [OF mined_ledger_reachable_indexed]
    mined_ledger_reachable_indexed
  by simp

text \<open>
  The claim as stated covers every chain a node can hold. Neither
  \<open>validate_and_add_block\<close> nor \<open>is_chain_valid\<close> reads the index field, so a block
  carrying index 7 is appended as the second block of a fresh ledger. The block
  below has proof of work under SHA-256 and names the digest of Genesis;
  \<open>misnumbered_block_any_hash\<close> is the same fact for every digest and every such
  block.
\<close>

theorem misnumbered_block_accepted:
  "reachable sha256_known misnumbered_ledger \<and> \<not> indices_sequential (chain misnumbered_ledger)"
proof -
  have ne: "misnumbered_block \<noteq> GENESIS"
    by (simp add: misnumbered_block_def GENESIS_def)
  then have pw: "proof_of_work sha256_known misnumbered_block"
    by (simp add: proof_of_work_def sha256_known_def startswith_def)
  have link: "previous_hash misnumbered_block = sha256_known GENESIS"
    by (simp add: sha256_known_def misnumbered_block_def)
  have ix: "index misnumbered_block \<noteq> 2" by (simp add: misnumbered_block_def)
  from misnumbered_block_any_hash [OF pw link ix] show ?thesis
    by (simp add: misnumbered_ledger_def)
qed

section \<open>Transaction gossip\<close>

text \<open>
  Claim C8, as amended. When the node processes a \<^verbatim>\<open>new_transaction\<close> message
  whose id is empty, missing or already in the seen set, the node's state is
  unchanged and nothing is sent. Otherwise the id is added to the seen set, whatever
  \<open>add_transaction\<close> answers, the ledger is the one \<open>add_transaction\<close> leaves, and
  the message goes to every peer except the sender with \<open>ttl - 1\<close> exactly when
  \<open>ttl > 0\<close>. A second delivery of the same id, right after the first, changes
  nothing and sends nothing.
\<close>

theorem listen_new_transaction:
  "(falsy (get_tx_id tx) \<or> (\<exists>j. get_tx_id tx = Some j \<and> j \<in> seen_tx_ids n) \<longrightarrow>
      listen H n (New_transaction tx ttl_field) addr = (n, []))
   \<and> (get_tx_id tx = Some i \<and> i \<noteq> [] \<and> i \<notin> seen_tx_ids n \<longrightarrow>
      fst (listen H n (New_transaction tx ttl_field) addr)
        = n\<lparr>seen_tx_ids := insert i (seen_tx_ids n),
            blockchain := snd (add_transaction (blockchain n) tx)\<rparr>
      \<and> snd (listen H n (New_transaction tx ttl_field) addr)
        = (if 0 < ttl_of ttl_field
           then map (\<lambda>p. (New_transaction tx (Some (ttl_of ttl_field - 1)), p))
                  (filter (\<lambda>p. p \<noteq> addr) (peers n))
           else []))
   \<and> (\<forall>tx2 ttl2 addr2. get_tx_id tx2 = get_tx_id tx \<longrightarrow>
      listen H (fst (listen H n (New_transaction tx ttl_field) addr))
          (New_transaction tx2 ttl2) addr2
        = (fst (listen H n (New_transaction tx ttl_field) addr), []))"
proof (intro conjI impI allI)
  assume "falsy (get_tx_id tx) \<or> (\<exists>j. get_tx_id tx = Some j \<and> j \<in> seen_tx_ids n)"
  then show "listen H n (New_transaction tx ttl_field) addr = (n, [])"
    by (rule listen_dropped)
next
  assume a: "get_tx_id tx = Some i \<and> i \<noteq> [] \<and> i \<notin> seen_tx_ids n"
  then show "fst (listen H n (New_transaction tx ttl_field) addr)
        = n\<lparr>seen_tx_ids := insert i (seen_tx_ids n),
            blockchain := snd (add_transaction (blockchain n) tx)\<rparr>"
    by (simp add: listen_processed(1))
  from a show "snd (listen H n (New_transaction tx ttl_field) addr)
        = (if 0 < ttl_of ttl_field
           then map (\<lambda>p. (New_transaction tx (Some (ttl_of ttl_field - 1)), p))
                  (filter (\<lambda>p. p \<noteq> addr) (peers n))
           else [])"
    by (simp add: listen_processed(2))
next
  fix tx2 :: tx_dict and ttl2 :: "int option" and addr2 :: peer
  assume same: "get_tx_id tx2 = get_tx_id tx"
  let ?n1 = "fst (listen H n (New_transaction tx ttl_field) addr)"
  have "falsy (get_tx_id tx2) \<or> (\<exists>j. get_tx_id tx2 = Some j \<and> j \<in> seen_tx_ids ?n1)"
  proof (cases "falsy (get_tx_id tx) \<or> (\<exists>j. get_tx_id tx = Some j \<and> j \<in> seen_tx_ids n)")
    case True
    then show ?thesis using same by (simp add: listen_dropped)
  next
    case False
    then obtain j where j: "get_tx_id tx = Some j" "j \<noteq> []" "j \<notin> seen_tx_ids n"
      by (cases "get_tx_id tx") auto
    then show ?thesis using same by (simp add: listen_processed(1))
  qed
  then show "listen H ?n1 (New_transaction tx2 ttl2) addr2 = (?n1, [])"
    by (rule listen_dropped)
qed

theorem listen_new_transaction_witness:
  "listen demo_hash demo_node (New_transaction (dict_of_tx demo_tx) None) (''127.0.0.1'', 4001)
     = (demo_node\<lparr>seen_tx_ids := {''t1''}, blockchain := demo_ledger\<rparr>,
        [(New_transaction (dict_of_tx demo_tx) (Some 3), (''127.0.0.1'', 4002))])
   \<and> listen demo_hash (demo_node\<lparr>seen_tx_ids := {''t1''}, blockchain := demo_ledger\<rparr>)
        (New_transaction (dict_of_tx demo_tx) (Some 4)) (''127.0.0.1'', 4002)
     = (demo_node\<lparr>seen_tx_ids := {''t1''}, blockchain := demo_ledger\<rparr>, [])"
proof -
  let ?tx = "dict_of_tx demo_tx"
  let ?msg = "New_transaction ?tx None"
  let ?from = "(''127.0.0.1'', 4001 :: int)"
  let ?n1 = "demo_node\<lparr>seen_tx_ids := {''t1''}, blockchain := demo_ledger\<rparr>"
  note inst = listen_new_transaction [of ?tx demo_node demo_hash None ?from "''t1''"]
  have new: "get_tx_id ?tx = Some ''t1'' \<and> ''t1'' \<noteq> [] \<and> ''t1'' \<notin> seen_tx_ids demo_node"
    by (simp add: demo_tx_def demo_node_def dict_of_tx_def)
  have led: "snd (add_transaction (blockchain demo_node) ?tx) = demo_ledger"
    by (simp add: demo_node_def add_demo_tx)
  from inst new have "fst (listen demo_hash demo_node ?msg ?from)
        = demo_node\<lparr>seen_tx_ids := insert ''t1'' (seen_tx_ids demo_node),
            blockchain := snd (add_transaction (blockchain demo_node) ?tx)\<rparr>"
    by blast
  then have st: "fst (listen demo_hash demo_node ?msg ?from) = ?n1"
    unfolding led by (simp add: demo_node_def)
  from inst new have "snd (listen demo_hash demo_node ?msg ?from)
        = (if 0 < ttl_of None
           then map (\<lambda>p. (New_transaction ?tx (Some (ttl_of None - 1)), p))
                  (filter (\<lambda>p. p \<noteq> ?from) (peers demo_node))
           else [])"
    by blast
  then have out: "snd (listen demo_hash demo_node ?msg ?from)
      = [(New_transaction ?tx (Some 3), (''127.0.0.1'', 4002))]"
    by (simp add: ttl_of_def demo_node_def)
  from inst have "listen demo_hash (fst (listen demo_hash demo_node ?msg ?from))
          (New_transaction ?tx (Some 4)) (''127.0.0.1'', 4002)
        = (fst (listen demo_hash demo_node ?msg ?from), [])"
    by blast
  with st have again: "listen demo_hash ?n1 (New_transaction ?tx (Some 4)) (''127.0.0.1'', 4002)
     = (?n1, [])" by simp
  from st out have "listen demo_hash demo_node ?msg ?from
      = (?n1, [(New_transaction ?tx (Some 3), (''127.0.0.1'', 4002))])"
    by (metis prod.collapse)
  with again show ?thesis by blast
qed

text \<open>
  The claim as stated marks and forwards every id that is not in the seen set. The
  guard \<^verbatim>\<open>if not tx_id or tx_id in self.seen_tx_ids: continue\<close> also drops the
  empty id: it is not marked as seen and the message is not forwarded, although the
  ttl is positive and there is a peer other than the sender.
\<close>

theorem listen_empty_tx_id:
  "get_tx_id unnamed_tx = Some []
   \<and> [] \<notin> seen_tx_ids demo_node
   \<and> (''127.0.0.1'', 4002) \<in> set (peers demo_node)
   \<and> listen demo_hash demo_node (New_transaction unnamed_tx (Some 4)) (''127.0.0.1'', 4001)
       = (demo_node, [])
   \<and> [] \<notin> seen_tx_ids
       (fst (listen demo_hash demo_node (New_transaction unnamed_tx (Some 4)) (''127.0.0.1'', 4001)))"
  by (simp add: listen_def unnamed_tx_def demo_node_def)

end
